theory Spec2Isabelle
  imports Main "HOL-Library.Sublist" "HOL-Library.Multiset" "HOL-Library.Word"
begin

section \<open>Python values used by scripts/extract\_pptx.py\<close>

text \<open>
  A Python \<^verbatim>\<open>str\<close> is a sequence of Unicode code points, so it is modelled as a list of
  natural numbers; \<open>ascii\<close> turns an ASCII literal of the source into such a list.
  A \<^verbatim>\<open>bytes\<close> object is a list of 8-bit words.
\<close>

type_synonym py_str = "nat list"

type_synonym byte = "8 word"

definition ascii :: "string \<Rightarrow> py_str" where
  "ascii s = map of_char s"

text \<open>
  The exceptions the body of the \<^verbatim>\<open>try\<close> block can raise. All of them are subclasses of
  \<^verbatim>\<open>Exception\<close>. An exception raised inside the library carries the text of \<^verbatim>\<open>str(e)\<close>;
  \<open>ZipError\<close> stands for whatever \<^verbatim>\<open>zipfile.ZipFile(...)\<close> or \<^verbatim>\<open>ZipFile.read\<close> raise
  (\<^verbatim>\<open>FileNotFoundError\<close>, \<^verbatim>\<open>BadZipFile\<close>, \<^verbatim>\<open>KeyError\<close>, a failed CRC check, ...).
  \<open>AttributeError\<close> is the one raised by \<^verbatim>\<open>None.group(1)\<close>.
\<close>

datatype exn =
    ZipError py_str
  | UnicodeDecodeError py_str
  | ValueError py_str
  | AttributeError

fun exn_str :: "exn \<Rightarrow> py_str" where
  "exn_str (ZipError m) = m"
| "exn_str (UnicodeDecodeError m) = m"
| "exn_str (ValueError m) = m"
| "exn_str AttributeError =
     39 # ascii ''NoneType'' @ 39 # ascii '' object has no attribute '' @ 39 # ascii ''group'' @ [39]"

text \<open>
  An opened archive is the list of its entries in the order the central directory
  enumerates them: the entry's name and what reading it gives, its bytes or an exception.
\<close>

type_synonym archive = "(py_str \<times> (exn + byte list)) list"

text \<open>
  What the script takes from its surroundings: the file system seen through
  \<^verbatim>\<open>zipfile.ZipFile(path, 'r')\<close>, the interpreter's Unicode tables for the code points outside
  ASCII (upper-case mapping, decimal digit value), the interpreter's limit on the length of
  a digit string given to \<^verbatim>\<open>int\<close> (\<open>0\<close>: no limit) and the texts of library exceptions.
\<close>

record runtime =
  zip_open :: "py_str \<Rightarrow> exn + archive"
  uni_upper :: "nat \<Rightarrow> py_str"
  uni_decimal :: "nat \<Rightarrow> nat option"
  int_max_str_digits :: nat
  key_error_text :: "py_str \<Rightarrow> py_str"
  decode_error_text :: "byte list \<Rightarrow> py_str"
  value_error_text :: "py_str \<Rightarrow> py_str"

section \<open>The archive\<close>

definition namelist :: "archive \<Rightarrow> py_str list" where
  "namelist a = map fst a"

text \<open>\<^verbatim>\<open>ZipFile.read(name)\<close>: the last entry of that name, \<^verbatim>\<open>KeyError\<close> when there is none.\<close>

definition zip_read :: "runtime \<Rightarrow> archive \<Rightarrow> py_str \<Rightarrow> exn + byte list" where
  "zip_read rt a name =
     (case map_of (rev a) name of
        None \<Rightarrow> Inl (ZipError (key_error_text rt name))
      | Some r \<Rightarrow> r)"

text \<open>\<^verbatim>\<open>f.startswith('ppt/slides/slide') and f.endswith('.xml')\<close>\<close>

definition is_slide_file :: "py_str \<Rightarrow> bool" where
  "is_slide_file f \<longleftrightarrow> prefix (ascii ''ppt/slides/slide'') f \<and> suffix (ascii ''.xml'') f"

definition slide_files :: "archive \<Rightarrow> py_str list" where
  "slide_files a = filter is_slide_file (namelist a)"

section \<open>The sort key\<close>

text \<open>The decimal value of a code point, \<open>None\<close> when it is no decimal digit.\<close>

definition decimal_value :: "runtime \<Rightarrow> nat \<Rightarrow> nat option" where
  "decimal_value rt c =
     (if 48 \<le> c \<and> c \<le> 57 then Some (c - 48)
      else if c < 128 then None
      else uni_decimal rt c)"

definition is_decimal :: "runtime \<Rightarrow> nat \<Rightarrow> bool" where
  "is_decimal rt c \<longleftrightarrow> decimal_value rt c \<noteq> None"

text \<open>
  \<^verbatim>\<open>re.search(r'slide(\d+)', x)\<close>: the leftmost position where \<^verbatim>\<open>slide\<close> is followed by a
  digit; group 1 is the longest run of digits there. \<open>None\<close> when there is no match.
\<close>

fun re_search_slide :: "runtime \<Rightarrow> py_str \<Rightarrow> py_str option" where
  "re_search_slide rt [] = None"
| "re_search_slide rt (c # cs) =
     (let ds = takeWhile (is_decimal rt) (drop 5 (c # cs)) in
      if prefix (ascii ''slide'') (c # cs) \<and> ds \<noteq> [] then Some ds
      else re_search_slide rt cs)"

text \<open>
  \<^verbatim>\<open>int(s)\<close> on a string of digits; \<open>None\<close> is \<^verbatim>\<open>ValueError\<close>: the string is empty, holds
  something that is no decimal digit, or is longer than the interpreter's limit (4300
  digits by default since Python 3.11, leading zeros counted).
\<close>

fun digits_value :: "runtime \<Rightarrow> nat \<Rightarrow> py_str \<Rightarrow> nat option" where
  "digits_value rt n [] = Some n"
| "digits_value rt n (c # cs) =
     (case decimal_value rt c of
        None \<Rightarrow> None
      | Some d \<Rightarrow> digits_value rt (10 * n + d) cs)"

definition py_int :: "runtime \<Rightarrow> py_str \<Rightarrow> nat option" where
  "py_int rt s =
     (if s = [] then None
      else if 0 < int_max_str_digits rt \<and> int_max_str_digits rt < length s then None
      else digits_value rt 0 s)"

text \<open>\<^verbatim>\<open>lambda x: int(re.search(r'slide(\d+)', x).group(1))\<close>\<close>

definition slide_number :: "runtime \<Rightarrow> py_str \<Rightarrow> exn + nat" where
  "slide_number rt x =
     (case re_search_slide rt x of
        None \<Rightarrow> Inl AttributeError
      | Some ds \<Rightarrow>
          (case py_int rt ds of
             None \<Rightarrow> Inl (ValueError (value_error_text rt ds))
           | Some n \<Rightarrow> Inr n))"

text \<open>
  \<^verbatim>\<open>list.sort(key=...)\<close> computes the key of every element first, in list order, and the
  first exception of the key function leaves it; then it sorts stably on the keys.
\<close>

fun sort_keys :: "runtime \<Rightarrow> py_str list \<Rightarrow> exn + nat list" where
  "sort_keys rt [] = Inr []"
| "sort_keys rt (f # fs) =
     (case slide_number rt f of
        Inl e \<Rightarrow> Inl e
      | Inr k \<Rightarrow>
          (case sort_keys rt fs of
             Inl e \<Rightarrow> Inl e
           | Inr ks \<Rightarrow> Inr (k # ks)))"

definition sort_slides :: "runtime \<Rightarrow> py_str list \<Rightarrow> exn + py_str list" where
  "sort_slides rt fs =
     (case sort_keys rt fs of
        Inl e \<Rightarrow> Inl e
      | Inr ks \<Rightarrow> Inr (map snd (sort_key fst (zip ks fs))))"

section \<open>The heading\<close>

text \<open>\<^verbatim>\<open>str.upper()\<close> maps every code point on its own, to one or more code points.\<close>

definition upper_char :: "runtime \<Rightarrow> nat \<Rightarrow> py_str" where
  "upper_char rt c =
     (if 97 \<le> c \<and> c \<le> 122 then [c - 32]
      else if c < 128 then [c]
      else uni_upper rt c)"

definition py_upper :: "runtime \<Rightarrow> py_str \<Rightarrow> py_str" where
  "py_upper rt s = concat (map (upper_char rt) s)"

text \<open>
  \<^verbatim>\<open>s.replace(old, new)\<close>: every occurrence of \<open>old\<close>, found from left to right without
  overlap, is replaced; an empty \<open>old\<close> matches before every code point and at the end.
\<close>

function py_replace :: "py_str \<Rightarrow> py_str \<Rightarrow> py_str \<Rightarrow> py_str" where
  "py_replace old new [] = (if old = [] then new else [])"
| "py_replace old new (c # cs) =
     (if old = [] then new @ c # py_replace old new cs
      else if prefix old (c # cs) then new @ py_replace old new (drop (length old) (c # cs))
      else c # py_replace old new cs)"
  by pat_completeness auto
termination
  by (relation "measure (\<lambda>(old, new, s). length s)") auto

text \<open>\<^verbatim>\<open>slide_file.upper().replace('PPT/SLIDES/', '').replace('.XML', '')\<close>\<close>

definition slide_label :: "runtime \<Rightarrow> py_str \<Rightarrow> py_str" where
  "slide_label rt slide_file =
     py_replace (ascii ''.XML'') [] (py_replace (ascii ''PPT/SLIDES/'') [] (py_upper rt slide_file))"

definition heading :: "runtime \<Rightarrow> py_str \<Rightarrow> py_str" where
  "heading rt slide_file = ascii ''--- '' @ slide_label rt slide_file @ ascii '' ---''"

text \<open>
  The label as the specification words it: the upper-cased name without the slide-storage
  prefix and without the XML suffix.
\<close>

definition remove_prefix :: "py_str \<Rightarrow> py_str \<Rightarrow> py_str" where
  "remove_prefix p s = (if prefix p s then drop (length p) s else s)"

definition remove_suffix :: "py_str \<Rightarrow> py_str \<Rightarrow> py_str" where
  "remove_suffix x s = (if suffix x s then take (length s - length x) s else s)"

definition label_spec :: "runtime \<Rightarrow> py_str \<Rightarrow> py_str" where
  "label_spec rt slide_file =
     remove_suffix (ascii ''.XML'') (remove_prefix (ascii ''PPT/SLIDES/'') (py_upper rt slide_file))"

section \<open>The text of a slide\<close>

text \<open>
  \<^verbatim>\<open>bytes.decode('utf-8')\<close> with strict error handling: shortest-form sequences only, no
  surrogates, nothing above U+10FFFF. \<open>None\<close> is \<^verbatim>\<open>UnicodeDecodeError\<close>.
\<close>

definition continuation :: "byte \<Rightarrow> bool" where
  "continuation b \<longleftrightarrow> 0x80 \<le> b \<and> b \<le> 0xBF"

definition low6 :: "byte \<Rightarrow> nat" where
  "low6 b = unat b - 128"

fun utf8_decode :: "byte list \<Rightarrow> py_str option" where
  "utf8_decode [] = Some []"
| "utf8_decode (b # bs) =
     (if b < 0x80 then map_option ((#) (unat b)) (utf8_decode bs)
      else if 0xC2 \<le> b \<and> b \<le> 0xDF then
        (case bs of
           b1 # r \<Rightarrow>
             if continuation b1
             then map_option ((#) ((unat b - 192) * 64 + low6 b1)) (utf8_decode r)
             else None
         | _ \<Rightarrow> None)
      else if 0xE0 \<le> b \<and> b \<le> 0xEF then
        (case bs of
           b1 # b2 # r \<Rightarrow>
             if continuation b1 \<and> continuation b2
                \<and> (b = 0xE0 \<longrightarrow> 0xA0 \<le> b1) \<and> (b = 0xED \<longrightarrow> b1 \<le> 0x9F)
             then map_option ((#) ((unat b - 224) * 4096 + low6 b1 * 64 + low6 b2))
                    (utf8_decode r)
             else None
         | _ \<Rightarrow> None)
      else if 0xF0 \<le> b \<and> b \<le> 0xF4 then
        (case bs of
           b1 # b2 # b3 # r \<Rightarrow>
             if continuation b1 \<and> continuation b2 \<and> continuation b3
                \<and> (b = 0xF0 \<longrightarrow> 0x90 \<le> b1) \<and> (b = 0xF4 \<longrightarrow> b1 \<le> 0x8F)
             then map_option
                    ((#) ((unat b - 240) * 262144 + low6 b1 * 4096 + low6 b2 * 64 + low6 b3))
                    (utf8_decode r)
             else None
         | _ \<Rightarrow> None)
      else None)"

text \<open>
  The group of \<^verbatim>\<open><a:t>(.*?)</a:t>\<close> once the opening tag has matched: the shortest run of
  code points other than the newline after which the closing tag stands. \<open>None\<close> when a
  newline or the end of the text comes first.
\<close>

fun lazy_group :: "py_str \<Rightarrow> py_str option" where
  "lazy_group [] = None"
| "lazy_group (c # cs) =
     (if prefix (ascii ''</a:t>'') (c # cs) then Some []
      else if c = 10 then None
      else map_option ((#) c) (lazy_group cs))"

text \<open>
  \<^verbatim>\<open>re.findall(r'<a:t>(.*?)</a:t>', content)\<close>: the scan tries every position from the left;
  after a match it goes on behind the closing tag, after a failure at the next position.
\<close>

function re_findall_text :: "py_str \<Rightarrow> py_str list" where
  "re_findall_text [] = []"
| "re_findall_text (c # cs) =
     (if prefix (ascii ''<a:t>'') (c # cs) then
        (case lazy_group (drop 5 (c # cs)) of
           Some g \<Rightarrow> g # re_findall_text (drop (5 + length g + 6) (c # cs))
         | None \<Rightarrow> re_findall_text cs)
      else re_findall_text cs)"
  by pat_completeness auto
termination
  by (relation "measure length") auto

text \<open>\<^verbatim>\<open>sep.join(xs)\<close>\<close>

fun py_join :: "py_str \<Rightarrow> py_str list \<Rightarrow> py_str" where
  "py_join sep [] = []"
| "py_join sep [x] = x"
| "py_join sep (x # y # ys) = x @ sep @ py_join sep (y # ys)"

text \<open>
  \<^verbatim>\<open>" ".join(re.findall(r'<a:t>(.*?)</a:t>', zip_ref.read(slide_file).decode('utf-8')))\<close>
\<close>

definition slide_text :: "runtime \<Rightarrow> archive \<Rightarrow> py_str \<Rightarrow> exn + py_str" where
  "slide_text rt a slide_file =
     (case zip_read rt a slide_file of
        Inl e \<Rightarrow> Inl e
      | Inr bs \<Rightarrow>
          (case utf8_decode bs of
             None \<Rightarrow> Inl (UnicodeDecodeError (decode_error_text rt bs))
           | Some content \<Rightarrow> Inr (py_join (ascii '' '') (re_findall_text content))))"

section \<open>The program\<close>

text \<open>
  Standard output is the list of the strings given to \<^verbatim>\<open>print\<close>, one per call (each call
  ends its string with a newline). A run of a piece of code gives what it printed and
  the exception that left it, if any. Writing to standard output itself is taken not to
  fail, and nothing outside \<^verbatim>\<open>Exception\<close> (a keyboard interrupt) is raised.

  One turn of the loop prints the heading first, then reads and decodes the entry, then
  prints the joined fragments and an empty line.
\<close>

definition slide_iteration :: "runtime \<Rightarrow> archive \<Rightarrow> py_str \<Rightarrow> py_str list \<times> exn option" where
  "slide_iteration rt a slide_file =
     (case slide_text rt a slide_file of
        Inl e \<Rightarrow> ([heading rt slide_file], Some e)
      | Inr line \<Rightarrow> ([heading rt slide_file, line, []], None))"

fun print_slides :: "runtime \<Rightarrow> archive \<Rightarrow> py_str list \<Rightarrow> py_str list \<times> exn option" where
  "print_slides rt a [] = ([], None)"
| "print_slides rt a (f # fs) =
     (case slide_iteration rt a f of
        (out, Some e) \<Rightarrow> (out, Some e)
      | (out, None) \<Rightarrow> (case print_slides rt a fs of (out', r) \<Rightarrow> (out @ out', r)))"

text \<open>The body of the \<^verbatim>\<open>try\<close> block.\<close>

definition try_body :: "runtime \<Rightarrow> py_str \<Rightarrow> py_str list \<times> exn option" where
  "try_body rt pptx_path =
     (case zip_open rt pptx_path of
        Inl e \<Rightarrow> ([], Some e)
      | Inr a \<Rightarrow>
          (case sort_slides rt (slide_files a) of
             Inl e \<Rightarrow> ([], Some e)
           | Inr sorted_files \<Rightarrow> print_slides rt a sorted_files))"

text \<open>\<^verbatim>\<open>print(f"Error: {e}")\<close>\<close>

definition error_line :: "exn \<Rightarrow> py_str" where
  "error_line e = ascii ''Error: '' @ exn_str e"

text \<open>The whole function: \<^verbatim>\<open>except Exception as e\<close> catches whatever left the body.\<close>

definition extract_text_from_pptx :: "runtime \<Rightarrow> py_str \<Rightarrow> py_str list" where
  "extract_text_from_pptx rt pptx_path =
     (case try_body rt pptx_path of
        (out, None) \<Rightarrow> out
      | (out, Some e) \<Rightarrow> out @ [error_line e])"

section \<open>Example archives\<close>

definition bytes_of :: "string \<Rightarrow> byte list" where
  "bytes_of s = map of_char s"

definition deck :: archive where
  "deck =
     [(ascii ''ppt/slides/slide10.xml'', Inr (bytes_of ''<a:t>C</a:t>'')),
      (ascii ''ppt/slides/slide1.xml'', Inr (bytes_of ''<a:t>A</a:t>'')),
      (ascii ''ppt/slides/slide2.xml'', Inr (bytes_of ''<a:t>B</a:t>''))]"

definition deck_reordered :: archive where
  "deck_reordered =
     [(ascii ''ppt/slides/slide2.xml'', Inr (bytes_of ''<a:t>B</a:t>'')),
      (ascii ''ppt/slides/slide10.xml'', Inr (bytes_of ''<a:t>C</a:t>'')),
      (ascii ''ppt/slides/slide1.xml'', Inr (bytes_of ''<a:t>A</a:t>''))]"

definition deck_malformed :: archive where
  "deck_malformed = [(ascii ''ppt/slides/slide.xml'', Inr (bytes_of ''<a:t>A</a:t>''))]"

definition deck_undecodable :: archive where
  "deck_undecodable =
     [(ascii ''ppt/slides/slide1.xml'', Inr (bytes_of ''<a:t>A</a:t>'')),
      (ascii ''ppt/slides/slide2.xml'', Inr [0xFF]),
      (ascii ''ppt/slides/slide3.xml'', Inr (bytes_of ''<a:t>C</a:t>''))]"

definition deck_empty_slide :: archive where
  "deck_empty_slide = [(ascii ''ppt/slides/slide1.xml'', Inr (bytes_of ''<p:sld/>''))]"

definition deck_no_slides :: archive where
  "deck_no_slides = [(ascii ''docProps/app.xml'', Inr (bytes_of ''<Properties/>''))]"

definition example_files :: "(py_str \<times> archive) list" where
  "example_files =
     [(ascii ''deck.pptx'', deck),
      (ascii ''reordered.pptx'', deck_reordered),
      (ascii ''malformed.pptx'', deck_malformed),
      (ascii ''undecodable.pptx'', deck_undecodable),
      (ascii ''empty_slide.pptx'', deck_empty_slide),
      (ascii ''no_slides.pptx'', deck_no_slides)]"

definition example_runtime :: runtime where
  "example_runtime =
     \<lparr> zip_open = (\<lambda>p. case map_of example_files p of
                         Some a \<Rightarrow> Inr a
                       | None \<Rightarrow> Inl (ZipError (ascii ''[Errno 2] No such file or directory''))),
       uni_upper = (\<lambda>c. [c]),
       uni_decimal = (\<lambda>c. None),
       int_max_str_digits = 4300,
       key_error_text = (\<lambda>name. ascii ''There is no item of that name in the archive''),
       decode_error_text = (\<lambda>bs. ascii ''invalid start byte''),
       value_error_text = (\<lambda>ds. ascii ''Exceeds the limit for integer string conversion'') \<rparr>"

section \<open>Documents made of text runs\<close>


definition no_open_tag :: "py_str \<Rightarrow> bool" where
  "no_open_tag s \<longleftrightarrow> \<not> sublist (ascii ''<a:t>'') s"

definition plain_fragment :: "py_str \<Rightarrow> bool" where
  "plain_fragment f \<longleftrightarrow> 10 \<notin> set f \<and> \<not> sublist (ascii ''</a:t>'') (f @ ascii ''</a:t'')"

text \<open>The element \<^verbatim>\<open><a:t xml:space="preserve">text</a:t>\<close>, as code points and as bytes.\<close>

definition attributed_run :: py_str where
  "attributed_run = ascii ''<a:t xml:space='' @ 34 # ascii ''preserve'' @ 34 # ascii ''>text</a:t>''"

definition deck_attributed :: archive where
  "deck_attributed =
     [(ascii ''ppt/slides/slide1.xml'',
       Inr (bytes_of ''<a:t xml:space='' @ 0x22 # bytes_of ''preserve'' @ 0x22 # bytes_of ''>text</a:t>''))]"


section \<open>The specification's words\<close>

text \<open>
  The name the host format gives the slide with the number \<open>n\<close>: \<^verbatim>\<open>ppt/slides/slide<n>.xml\<close>
  with \<open>n\<close> written in decimal, without leading zeros.
\<close>

fun decimal_string :: "nat \<Rightarrow> py_str" where
  "decimal_string n =
     (if n < 10 then [48 + n] else decimal_string (n div 10) @ [48 + n mod 10])"

declare decimal_string.simps [simp del]

definition slide_name :: "nat \<Rightarrow> py_str" where
  "slide_name n = ascii ''ppt/slides/slide'' @ decimal_string n @ ascii ''.xml''"





section \<open>Leaving the \<^verbatim>\<open>try\<close> block\<close>

lemma try_body_open_failure:
  "zip_open rt path = Inl e \<Longrightarrow> try_body rt path = ([], Some e)"
  by (simp add: try_body_def)

lemma try_body_opened:
  "zip_open rt path = Inr a \<Longrightarrow>
   try_body rt path =
     (case sort_slides rt (slide_files a) of
        Inl e \<Rightarrow> ([], Some e)
      | Inr ss \<Rightarrow> print_slides rt a ss)"
  by (simp add: try_body_def)

lemma error_line_prefix: "prefix (ascii ''Error:'') (error_line e)"
  by (simp add: error_line_def ascii_def)

lemma example_open_missing:
  "zip_open example_runtime (ascii ''missing.pptx'')
     = Inl (ZipError (ascii ''[Errno 2] No such file or directory''))"
  by (simp add: example_runtime_def example_files_def ascii_def)

text \<open>
  Claim C4. When \<^verbatim>\<open>zipfile.ZipFile(path, 'r')\<close> raises (the path is missing, unreadable or
  no zip archive), the function prints one line, which begins with \<^verbatim>\<open>Error:\<close>, and
  nothing else: no heading and no content line.
\<close>

theorem missing_archive_prints_one_error_line:
  assumes "zip_open rt path = Inl e"
  shows "extract_text_from_pptx rt path = [error_line e]
         \<and> prefix (ascii ''Error:'') (error_line e)"
  using assms
  by (simp add: extract_text_from_pptx_def try_body_open_failure error_line_prefix)

theorem missing_archive_witness:
  "extract_text_from_pptx example_runtime (ascii ''missing.pptx'')
     = [ascii ''Error: [Errno 2] No such file or directory'']"
  using missing_archive_prints_one_error_line [OF example_open_missing]
  by (simp add: error_line_def ascii_def)

section \<open>An archive without slides\<close>

lemma sort_slides_Nil: "sort_slides rt [] = Inr []"
  by (simp add: sort_slides_def)

lemma example_open_deck:
  "zip_open example_runtime (ascii ''deck.pptx'') = Inr deck"
  by (simp add: example_runtime_def example_files_def ascii_def)

lemma example_open_no_slides:
  "zip_open example_runtime (ascii ''no_slides.pptx'') = Inr deck_no_slides"
  by (simp add: example_runtime_def example_files_def ascii_def)

lemma example_no_slides_filter:
  "\<forall>name \<in> set (namelist deck_no_slides). \<not> is_slide_file name"
  by (simp add: deck_no_slides_def namelist_def is_slide_file_def ascii_def)

text \<open>
  Claim C8. When the archive opens and none of its entry names passes the slide filter
  (\<^verbatim>\<open>startswith('ppt/slides/slide')\<close> and \<^verbatim>\<open>endswith('.xml')\<close>), the body of the
  \<^verbatim>\<open>try\<close> block ends without an exception and nothing at all is printed.
\<close>

theorem no_slide_entries_no_output:
  assumes "zip_open rt path = Inr a"
      and "\<forall>name \<in> set (namelist a). \<not> is_slide_file name"
  shows "try_body rt path = ([], None) \<and> extract_text_from_pptx rt path = []"
proof -
  from assms(2) have "slide_files a = []"
    by (simp add: slide_files_def filter_empty_conv)
  with assms(1) have "try_body rt path = ([], None)"
    by (simp add: try_body_opened sort_slides_Nil)
  then show ?thesis
    by (simp add: extract_text_from_pptx_def)
qed

theorem no_slide_entries_witness:
  "zip_open example_runtime (ascii ''no_slides.pptx'') = Inr deck_no_slides
   \<and> extract_text_from_pptx example_runtime (ascii ''no_slides.pptx'') = []"
  using no_slide_entries_no_output [OF example_open_no_slides example_no_slides_filter]
    example_open_no_slides
  by simp

section \<open>Exceptions while opening, reading and decoding\<close>



lemma slide_iteration_ok:
  "slide_text rt a f = Inr l \<Longrightarrow> slide_iteration rt a f = ([heading rt f, l, []], None)"
  by (simp add: slide_iteration_def)

lemma slide_iteration_raises:
  "slide_text rt a f = Inl e \<Longrightarrow> slide_iteration rt a f = ([heading rt f], Some e)"
  by (simp add: slide_iteration_def)

lemma print_slides_append:
  assumes "\<forall>g \<in> set pre. \<exists>l. slide_text rt a g = Inr l"
  shows "print_slides rt a (pre @ rest) =
           (concat (map (fst \<circ> slide_iteration rt a) pre) @ fst (print_slides rt a rest),
            snd (print_slides rt a rest))"
  using assms
proof (induction pre)
  case Nil
  then show ?case by simp
next
  case (Cons g pre)
  then obtain l where "slide_text rt a g = Inr l" by auto
  then have "slide_iteration rt a g = ([heading rt g, l, []], None)"
    by (rule slide_iteration_ok)
  with Cons show ?case
    by (simp add: case_prod_unfold)
qed

lemma slide_text_read_failure:
  "zip_read rt a f = Inl e \<Longrightarrow> slide_text rt a f = Inl e"
  by (simp add: slide_text_def)

lemma slide_text_decode_failure:
  "zip_read rt a f = Inr bs \<Longrightarrow> utf8_decode bs = None \<Longrightarrow>
   slide_text rt a f = Inl (UnicodeDecodeError (decode_error_text rt bs))"
  by (simp add: slide_text_def)

lemma extract_slide_raises:
  assumes "zip_open rt path = Inr a"
      and "sort_slides rt (slide_files a) = Inr (pre @ f # post)"
      and "\<forall>g \<in> set pre. \<exists>l. slide_text rt a g = Inr l"
      and "slide_text rt a f = Inl e"
  shows "extract_text_from_pptx rt path =
           concat (map (fst \<circ> slide_iteration rt a) pre) @ [heading rt f, error_line e]"
proof -
  have "try_body rt path = print_slides rt a (pre @ f # post)"
    using assms(1,2) by (simp add: try_body_opened)
  also have "\<dots> = (concat (map (fst \<circ> slide_iteration rt a) pre) @ [heading rt f], Some e)"
    using assms(3,4) by (simp add: print_slides_append slide_iteration_raises)
  finally show ?thesis
    by (simp add: extract_text_from_pptx_def)
qed

lemmas example_key_simps =
  slide_number_def py_int_def is_decimal_def decimal_value_def ascii_def example_runtime_def

lemmas example_label_simps =
  heading_def slide_label_def py_upper_def upper_char_def ascii_def example_runtime_def

lemma example_open_undecodable:
  "zip_open example_runtime (ascii ''undecodable.pptx'') = Inr deck_undecodable"
  by (simp add: example_runtime_def example_files_def ascii_def)

lemma example_sort_undecodable:
  "sort_slides example_runtime (slide_files deck_undecodable)
     = Inr ([ascii ''ppt/slides/slide1.xml'']
            @ ascii ''ppt/slides/slide2.xml'' # [ascii ''ppt/slides/slide3.xml''])"
  by (simp add: sort_slides_def slide_files_def namelist_def deck_undecodable_def is_slide_file_def
      suffix_to_prefix example_key_simps)

lemma example_text_undecodable_1:
  "slide_text example_runtime deck_undecodable (ascii ''ppt/slides/slide1.xml'') = Inr (ascii ''A'')"
  by (simp add: slide_text_def zip_read_def deck_undecodable_def ascii_def bytes_of_def)

lemma example_read_undecodable_2:
  "zip_read example_runtime deck_undecodable (ascii ''ppt/slides/slide2.xml'') = Inr [0xFF]"
  by (simp add: zip_read_def deck_undecodable_def ascii_def)

lemma utf8_decode_FF: "utf8_decode [0xFF] = None"
  by simp

lemma example_heading_1:
  "heading example_runtime (ascii ''ppt/slides/slide1.xml'') = ascii ''--- SLIDE1 ---''"
  by (simp add: example_label_simps)

lemma example_heading_2:
  "heading example_runtime (ascii ''ppt/slides/slide2.xml'') = ascii ''--- SLIDE2 ---''"
  by (simp add: example_label_simps)


lemma example_iteration_undecodable_1:
  "slide_iteration example_runtime deck_undecodable (ascii ''ppt/slides/slide1.xml'')
      = ([ascii ''--- SLIDE1 ---'', ascii ''A'', []], None)"
  by (simp add: slide_iteration_ok [OF example_text_undecodable_1] example_heading_1)

lemma example_error_line_decode:
  "error_line (UnicodeDecodeError (decode_error_text example_runtime [0xFF]))
     = ascii ''Error: invalid start byte''"
  by (simp add: error_line_def example_runtime_def ascii_def)

text \<open>
  Claim C3. An exception raised by opening the archive leaves the \<^verbatim>\<open>try\<close> block before
  anything is printed; an exception raised by reading or decoding the entry of a slide
  leaves it right after that slide's heading. In both cases the handler prints one line
  \<^verbatim>\<open>Error: <details>\<close>, which is the last line of the output: the slides behind the
  failing one are not processed.
\<close>

theorem exception_aborts_run_with_one_error_line:
  "(zip_open rt path = Inl e \<longrightarrow> extract_text_from_pptx rt path = [error_line e]) \<and>
   (zip_open rt path = Inr a
      \<and> sort_slides rt (slide_files a) = Inr (pre @ f # post)
      \<and> (\<forall>g \<in> set pre. \<exists>l. slide_text rt a g = Inr l)
      \<and> (zip_read rt a f = Inl e
           \<or> (\<exists>bs. zip_read rt a f = Inr bs \<and> utf8_decode bs = None
                  \<and> e = UnicodeDecodeError (decode_error_text rt bs)))
    \<longrightarrow> extract_text_from_pptx rt path =
          concat (map (fst \<circ> slide_iteration rt a) pre) @ [heading rt f, error_line e])"
proof (intro conjI impI)
  assume "zip_open rt path = Inl e"
  then show "extract_text_from_pptx rt path = [error_line e]"
    by (simp add: extract_text_from_pptx_def try_body_open_failure)
next
  assume h: "zip_open rt path = Inr a
      \<and> sort_slides rt (slide_files a) = Inr (pre @ f # post)
      \<and> (\<forall>g \<in> set pre. \<exists>l. slide_text rt a g = Inr l)
      \<and> (zip_read rt a f = Inl e
           \<or> (\<exists>bs. zip_read rt a f = Inr bs \<and> utf8_decode bs = None
                  \<and> e = UnicodeDecodeError (decode_error_text rt bs)))"
  then have "slide_text rt a f = Inl e"
    by (auto simp: slide_text_read_failure slide_text_decode_failure)
  with h show "extract_text_from_pptx rt path =
          concat (map (fst \<circ> slide_iteration rt a) pre) @ [heading rt f, error_line e]"
    by (simp add: extract_slide_raises)
qed



theorem exception_aborts_run_witness:
  "extract_text_from_pptx example_runtime (ascii ''missing.pptx'')
     = [ascii ''Error: [Errno 2] No such file or directory'']
   \<and> extract_text_from_pptx example_runtime (ascii ''undecodable.pptx'')
     = [ascii ''--- SLIDE1 ---'', ascii ''A'', [],
        ascii ''--- SLIDE2 ---'', ascii ''Error: invalid start byte'']"
proof
  show "extract_text_from_pptx example_runtime (ascii ''missing.pptx'')
     = [ascii ''Error: [Errno 2] No such file or directory'']"
    using exception_aborts_run_with_one_error_line
      [of example_runtime "ascii ''missing.pptx''"
          "ZipError (ascii ''[Errno 2] No such file or directory'')"]
      example_open_missing
    by (simp add: error_line_def ascii_def)
next
  have "extract_text_from_pptx example_runtime (ascii ''undecodable.pptx'') =
          concat (map (fst \<circ> slide_iteration example_runtime deck_undecodable)
                    [ascii ''ppt/slides/slide1.xml''])
          @ [heading example_runtime (ascii ''ppt/slides/slide2.xml''),
             error_line (UnicodeDecodeError (decode_error_text example_runtime [0xFF]))]"
  proof (rule exception_aborts_run_with_one_error_line
      [where post = "[ascii ''ppt/slides/slide3.xml'']", THEN conjunct2, THEN mp])
    have "\<forall>g \<in> set [ascii ''ppt/slides/slide1.xml''].
            \<exists>l. slide_text example_runtime deck_undecodable g = Inr l"
      using example_text_undecodable_1 by simp
    moreover have "\<exists>bs. zip_read example_runtime deck_undecodable (ascii ''ppt/slides/slide2.xml'') = Inr bs
        \<and> utf8_decode bs = None
        \<and> UnicodeDecodeError (decode_error_text example_runtime [0xFF])
            = UnicodeDecodeError (decode_error_text example_runtime bs)"
      using example_read_undecodable_2 utf8_decode_FF by blast
    ultimately show "zip_open example_runtime (ascii ''undecodable.pptx'') = Inr deck_undecodable
        \<and> sort_slides example_runtime (slide_files deck_undecodable)
            = Inr ([ascii ''ppt/slides/slide1.xml'']
                   @ ascii ''ppt/slides/slide2.xml'' # [ascii ''ppt/slides/slide3.xml''])
        \<and> (\<forall>g \<in> set [ascii ''ppt/slides/slide1.xml''].
              \<exists>l. slide_text example_runtime deck_undecodable g = Inr l)
        \<and> (zip_read example_runtime deck_undecodable (ascii ''ppt/slides/slide2.xml'')
              = Inl (UnicodeDecodeError (decode_error_text example_runtime [0xFF]))
             \<or> (\<exists>bs. zip_read example_runtime deck_undecodable (ascii ''ppt/slides/slide2.xml'') = Inr bs
                    \<and> utf8_decode bs = None
                    \<and> UnicodeDecodeError (decode_error_text example_runtime [0xFF])
                        = UnicodeDecodeError (decode_error_text example_runtime bs)))"
      using example_open_undecodable example_sort_undecodable by blast
  qed
  then show "extract_text_from_pptx example_runtime (ascii ''undecodable.pptx'')
     = [ascii ''--- SLIDE1 ---'', ascii ''A'', [],
        ascii ''--- SLIDE2 ---'', ascii ''Error: invalid start byte'']"
    by (simp only: example_iteration_undecodable_1 example_heading_2 example_error_line_decode
        list.map concat.simps fst_conv append.simps o_apply)
qed

section \<open>A slide name without a number\<close>

lemma sort_keys_first_failure:
  assumes "\<forall>g \<in> set pre. \<exists>k. slide_number rt g = Inr k"
      and "slide_number rt f = Inl e"
  shows "sort_keys rt (pre @ f # post) = Inl e"
  using assms by (induction pre) auto

lemma slide_number_no_match:
  "re_search_slide rt f = None \<Longrightarrow> slide_number rt f = Inl AttributeError"
  by (simp add: slide_number_def)

lemma extract_sort_raises:
  assumes "zip_open rt path = Inr a"
      and "sort_keys rt (slide_files a) = Inl e"
  shows "try_body rt path = ([], Some e)"
  using assms by (simp add: try_body_opened sort_slides_def)

lemma example_open_malformed:
  "zip_open example_runtime (ascii ''malformed.pptx'') = Inr deck_malformed"
  by (simp add: example_runtime_def example_files_def ascii_def)

lemma example_slide_files_malformed:
  "slide_files deck_malformed = [] @ ascii ''ppt/slides/slide.xml'' # []"
  by (simp add: slide_files_def namelist_def deck_malformed_def is_slide_file_def
      suffix_to_prefix ascii_def)

lemma example_search_malformed:
  "re_search_slide example_runtime (ascii ''ppt/slides/slide.xml'') = None"
  by (simp add: ascii_def is_decimal_def decimal_value_def)

lemma error_line_AttributeError:
  "error_line AttributeError =
     ascii ''Error: '' @ 39 # ascii ''NoneType'' @ 39 # ascii '' object has no attribute ''
       @ 39 # ascii ''group'' @ [39]"
  by (simp add: error_line_def)

text \<open>
  Claim C2, as the code has it. The sort is inside the \<^verbatim>\<open>try\<close> block and the
  \<^verbatim>\<open>AttributeError\<close> of \<^verbatim>\<open>None.group(1)\<close> is an \<^verbatim>\<open>Exception\<close>: when the first entry
  whose key cannot be computed passes the filter and has no \<^verbatim>\<open>slide<digits>\<close> in its name,
  the handler catches the error and the whole output is the one line
  \<^verbatim>\<open>Error: 'NoneType' object has no attribute 'group'\<close>; no heading is printed.
\<close>

theorem malformed_name_error_is_caught:
  assumes "zip_open rt path = Inr a"
      and "slide_files a = pre @ f # post"
      and "\<forall>g \<in> set pre. \<exists>k. slide_number rt g = Inr k"
      and "re_search_slide rt f = None"
  shows "try_body rt path = ([], Some AttributeError)
         \<and> extract_text_from_pptx rt path = [error_line AttributeError]"
proof -
  have "sort_keys rt (slide_files a) = Inl AttributeError"
    using assms(2-4) by (simp add: sort_keys_first_failure slide_number_no_match)
  with assms(1) have "try_body rt path = ([], Some AttributeError)"
    by (rule extract_sort_raises)
  then show ?thesis
    by (simp add: extract_text_from_pptx_def)
qed

theorem malformed_name_witness:
  "is_slide_file (ascii ''ppt/slides/slide.xml'')
   \<and> extract_text_from_pptx example_runtime (ascii ''malformed.pptx'')
       = [ascii ''Error: '' @ 39 # ascii ''NoneType'' @ 39 # ascii '' object has no attribute ''
            @ 39 # ascii ''group'' @ [39]]"
proof
  show "is_slide_file (ascii ''ppt/slides/slide.xml'')"
    by (simp add: is_slide_file_def suffix_to_prefix ascii_def)
next
  have "\<forall>g \<in> set []. \<exists>k. slide_number example_runtime g = Inr k"
    by simp
  from malformed_name_error_is_caught
    [OF example_open_malformed example_slide_files_malformed this example_search_malformed]
  show "extract_text_from_pptx example_runtime (ascii ''malformed.pptx'')
       = [ascii ''Error: '' @ 39 # ascii ''NoneType'' @ 39 # ascii '' object has no attribute ''
            @ 39 # ascii ''group'' @ [39]]"
    by (simp only: error_line_AttributeError)
qed

text \<open>
  The claim as the specification words it fails: for the archive whose only entry is
  \<^verbatim>\<open>ppt/slides/slide.xml\<close>, the entry passes the filter, the search finds no number, and
  the run ends normally with the printed line \<^verbatim>\<open>Error: ...\<close>.
\<close>

theorem malformed_name_counterexample:
  "is_slide_file (ascii ''ppt/slides/slide.xml'')
   \<and> re_search_slide example_runtime (ascii ''ppt/slides/slide.xml'') = None
   \<and> try_body example_runtime (ascii ''malformed.pptx'') = ([], Some AttributeError)
   \<and> extract_text_from_pptx example_runtime (ascii ''malformed.pptx'')
       = [error_line AttributeError]
   \<and> prefix (ascii ''Error: '') (error_line AttributeError)"
proof -
  have 1: "is_slide_file (ascii ''ppt/slides/slide.xml'')"
    by (simp add: is_slide_file_def suffix_to_prefix ascii_def)
  have "slide_number example_runtime (ascii ''ppt/slides/slide.xml'') = Inl AttributeError"
    by (simp add: slide_number_no_match example_search_malformed)
  then have "sort_keys example_runtime (slide_files deck_malformed) = Inl AttributeError"
    by (simp add: example_slide_files_malformed)
  then have 2: "try_body example_runtime (ascii ''malformed.pptx'') = ([], Some AttributeError)"
    by (simp add: try_body_def example_open_malformed sort_slides_def)
  then have 3: "extract_text_from_pptx example_runtime (ascii ''malformed.pptx'')
       = [error_line AttributeError]"
    by (simp add: extract_text_from_pptx_def)
  have 4: "prefix (ascii ''Error: '') (error_line AttributeError)"
    by (simp add: error_line_def)
  from 1 example_search_malformed 2 3 4 show ?thesis by blast
qed

section \<open>A slide without text\<close>

lemma slide_text_no_fragment:
  assumes "zip_read rt a f = Inr bs" and "utf8_decode bs = Some content"
      and "re_findall_text content = []"
  shows "slide_text rt a f = Inr []"
  using assms by (simp add: slide_text_def)

lemma extract_reaches_slide:
  assumes "zip_open rt path = Inr a"
      and "sort_slides rt (slide_files a) = Inr (pre @ f # post)"
      and "\<forall>g \<in> set pre. \<exists>l. slide_text rt a g = Inr l"
      and "slide_text rt a f = Inr line"
  shows "\<exists>rest. extract_text_from_pptx rt path =
           concat (map (fst \<circ> slide_iteration rt a) pre) @ [heading rt f, line, []] @ rest"
proof -
  obtain out r where p: "print_slides rt a post = (out, r)"
    by (cases "print_slides rt a post")
  have "try_body rt path = print_slides rt a (pre @ f # post)"
    using assms(1,2) by (simp add: try_body_opened)
  also have "\<dots> = (concat (map (fst \<circ> slide_iteration rt a) pre)
                      @ [heading rt f, line, []] @ out, r)"
    using assms(3,4) p by (simp add: print_slides_append slide_iteration_ok)
  finally have "extract_text_from_pptx rt path =
       concat (map (fst \<circ> slide_iteration rt a) pre) @ [heading rt f, line, []]
         @ (case r of None \<Rightarrow> out | Some e \<Rightarrow> out @ [error_line e])"
    by (simp add: extract_text_from_pptx_def split: option.splits)
  then show ?thesis by blast
qed

lemma length_blocks:
  assumes "\<forall>g \<in> set pre. \<exists>l. slide_text rt a g = Inr l"
  shows "length (concat (map (fst \<circ> slide_iteration rt a) pre)) = 3 * length pre"
  using assms
proof (induction pre)
  case Nil
  then show ?case by simp
next
  case (Cons g pre)
  then obtain l where "slide_text rt a g = Inr l" by auto
  then have "slide_iteration rt a g = ([heading rt g, l, []], None)"
    by (rule slide_iteration_ok)
  with Cons show ?case by simp
qed

lemma example_open_empty_slide:
  "zip_open example_runtime (ascii ''empty_slide.pptx'') = Inr deck_empty_slide"
  by (simp add: example_runtime_def example_files_def ascii_def)

lemma example_sort_empty_slide:
  "sort_slides example_runtime (slide_files deck_empty_slide)
     = Inr ([] @ ascii ''ppt/slides/slide1.xml'' # [])"
  by (simp add: sort_slides_def slide_files_def namelist_def deck_empty_slide_def is_slide_file_def
      suffix_to_prefix example_key_simps)

lemma example_read_empty_slide:
  "zip_read example_runtime deck_empty_slide (ascii ''ppt/slides/slide1.xml'')
     = Inr (bytes_of ''<p:sld/>'')"
  by (simp add: zip_read_def deck_empty_slide_def ascii_def)

lemma example_decode_empty_slide:
  "utf8_decode (bytes_of ''<p:sld/>'') = Some (ascii ''<p:sld/>'')"
  by (simp add: bytes_of_def ascii_def)

lemma example_findall_empty_slide:
  "re_findall_text (ascii ''<p:sld/>'') = []"
  by (simp add: ascii_def)

text \<open>
  Claim C6. A slide whose decoded content has no match of the text pattern is not
  skipped: when the loop reaches it (the slides before it were read and decoded), its
  block stands in the output behind the blocks of the slides before it, as the heading,
  one empty content line and one empty separator line.
\<close>

theorem slide_without_text_keeps_its_block:
  assumes "zip_open rt path = Inr a"
      and "sort_slides rt (slide_files a) = Inr (pre @ f # post)"
      and "\<forall>g \<in> set pre. \<exists>l. slide_text rt a g = Inr l"
      and "zip_read rt a f = Inr bs"
      and "utf8_decode bs = Some content"
      and "re_findall_text content = []"
  shows "\<exists>before rest.
           extract_text_from_pptx rt path = before @ [heading rt f, [], []] @ rest
           \<and> before = concat (map (fst \<circ> slide_iteration rt a) pre)
           \<and> length before = 3 * length pre"
proof -
  have "slide_text rt a f = Inr []"
    using assms(4-6) by (rule slide_text_no_fragment)
  from extract_reaches_slide [OF assms(1-3) this] length_blocks [OF assms(3)]
  show ?thesis by blast
qed

theorem slide_without_text_witness:
  "extract_text_from_pptx example_runtime (ascii ''empty_slide.pptx'')
     = [ascii ''--- SLIDE1 ---'', [], []]"
proof -
  have "\<forall>g \<in> set []. \<exists>l. slide_text example_runtime deck_empty_slide g = Inr l"
    by simp
  from slide_without_text_keeps_its_block
    [OF example_open_empty_slide example_sort_empty_slide this example_read_empty_slide
        example_decode_empty_slide example_findall_empty_slide]
  obtain rest where
    out: "extract_text_from_pptx example_runtime (ascii ''empty_slide.pptx'')
       = [heading example_runtime (ascii ''ppt/slides/slide1.xml''), [], []] @ rest"
    by auto
  have "try_body example_runtime (ascii ''empty_slide.pptx'')
      = print_slides example_runtime deck_empty_slide [ascii ''ppt/slides/slide1.xml'']"
    using example_sort_empty_slide
    by (simp add: try_body_opened [OF example_open_empty_slide])
  then have "length (extract_text_from_pptx example_runtime (ascii ''empty_slide.pptx'')) \<le> 3"
    by (simp add: extract_text_from_pptx_def slide_iteration_def split: sum.splits)
  with out have "rest = []" by simp
  with out show ?thesis by (simp only: example_heading_1 append_Nil2)
qed

section \<open>The heading label\<close>

lemma py_replace_no_occurrence:
  assumes "old \<noteq> []" and "\<not> sublist old s"
  shows "py_replace old new s = s"
  using assms(2)
proof (induction s)
  case Nil
  with assms(1) show ?case by simp
next
  case (Cons c cs)
  have "\<not> prefix old (c # cs)"
    using Cons.prems prefix_imp_sublist by blast
  moreover have "\<not> sublist old cs"
    using Cons.prems by (simp add: sublist_Cons_right)
  ultimately show ?case
    using assms(1) Cons.IH by simp
qed

lemma py_replace_at_start:
  assumes "old \<noteq> []"
  shows "py_replace old new (old @ s) = new @ py_replace old new s"
proof -
  obtain c cs where "old = c # cs"
    using assms by (cases old) auto
  then show ?thesis by simp
qed

lemma prefix_of_longer_part:
  assumes "prefix xs (ys @ zs)" and "length xs \<le> length ys"
  shows "prefix xs ys"
  using assms by (auto simp: prefix_append)

lemma py_replace_only_at_end:
  assumes "x \<noteq> []" and "\<not> sublist x (butlast (m @ x))"
  shows "py_replace x [] (m @ x) = m"
  using assms(2)
proof (induction m)
  case Nil
  have "py_replace x [] (x @ []) = [] @ py_replace x [] []"
    using assms(1) by (rule py_replace_at_start)
  with assms(1) show ?case by simp
next
  case (Cons c m)
  have bl: "butlast ((c # m) @ x) = c # butlast (m @ x)"
    using assms(1) by simp
  have "\<not> prefix x (c # m @ x)"
  proof
    assume p: "prefix x (c # m @ x)"
    have "length x \<le> length (c # butlast (m @ x))"
      using assms(1) by simp
    moreover have "m @ x \<noteq> []"
      using assms(1) by simp
    then have "butlast (m @ x) @ [last (m @ x)] = m @ x"
      by (rule append_butlast_last_id)
    then have "c # m @ x = (c # butlast (m @ x)) @ [last (m @ x)]"
      by (simp only: append_Cons)
    ultimately have "prefix x (c # butlast (m @ x))"
      using p prefix_of_longer_part by metis
    then have "sublist x (c # butlast (m @ x))"
      by (rule prefix_imp_sublist)
    with Cons.prems bl show False by simp
  qed
  moreover have "\<not> sublist x (butlast (m @ x))"
    using Cons.prems bl by (simp add: sublist_Cons_right)
  ultimately show ?case
    using assms(1) Cons.IH by simp
qed

lemma py_upper_append: "py_upper rt (s @ t) = py_upper rt s @ py_upper rt t"
  by (simp add: py_upper_def)

lemma py_upper_slide_prefix:
  "py_upper rt (ascii ''ppt/slides/slide'') = ascii ''PPT/SLIDES/'' @ ascii ''SLIDE''"
  by (simp add: py_upper_def upper_char_def ascii_def)

lemma py_upper_xml_suffix: "py_upper rt (ascii ''.xml'') = ascii ''.XML''"
  by (simp add: py_upper_def upper_char_def ascii_def)

lemma suffix_of_longer_part:
  assumes "suffix xs (ys @ zs)" and "length xs \<le> length zs"
  shows "suffix xs zs"
  using assms by (auto simp: suffix_append)

lemma slide_file_upper_shape:
  assumes "is_slide_file name"
  shows "\<exists>m. py_upper rt name = ascii ''PPT/SLIDES/'' @ m @ ascii ''.XML''"
proof -
  obtain r where r: "name = ascii ''ppt/slides/slide'' @ r"
    using assms by (auto simp: is_slide_file_def prefix_def)
  obtain q where q: "name = q @ ascii ''.xml''"
    using assms by (auto simp: is_slide_file_def suffix_def)
  let ?w = "ascii ''SLIDE'' @ py_upper rt r"
  have u: "py_upper rt name = ascii ''PPT/SLIDES/'' @ ?w"
    by (simp add: r py_upper_append py_upper_slide_prefix)
  have "py_upper rt name = py_upper rt q @ ascii ''.XML''"
    using q by (simp add: py_upper_append py_upper_xml_suffix)
  then have "suffix (ascii ''.XML'') (ascii ''PPT/SLIDES/'' @ ?w)"
    using u by (metis suffixI)
  moreover have "length (ascii ''.XML'') \<le> length ?w"
    by (simp add: ascii_def)
  ultimately have "suffix (ascii ''.XML'') ?w"
    by (rule suffix_of_longer_part)
  then obtain m where "?w = m @ ascii ''.XML''"
    by (auto simp: suffix_def)
  with u show ?thesis by auto
qed

lemma label_of_shape:
  assumes u: "py_upper rt name = ascii ''PPT/SLIDES/'' @ m @ ascii ''.XML''"
      and p: "\<not> sublist (ascii ''PPT/SLIDES/'') (tl (py_upper rt name))"
      and x: "\<not> sublist (ascii ''.XML'') (butlast (py_upper rt name))"
  shows "slide_label rt name = m" and "label_spec rt name = m"
proof -
  let ?P = "ascii ''PPT/SLIDES/''" and ?X = "ascii ''.XML''"
  have P: "?P \<noteq> []" and X: "?X \<noteq> []"
    by (simp_all add: ascii_def)
  have "sublist (m @ ?X) (tl (?P @ m @ ?X))"
    using P by (cases ?P) (auto intro: sublist_appendI)
  with p have "\<not> sublist ?P (m @ ?X)"
    unfolding u using sublist_order.order_trans by blast
  then have 1: "py_replace ?P [] (py_upper rt name) = m @ ?X"
    using P by (simp add: u py_replace_at_start py_replace_no_occurrence)
  have "butlast (?P @ m @ ?X) = ?P @ butlast (m @ ?X)"
    using X by (simp add: butlast_append)
  then have "sublist (butlast (m @ ?X)) (butlast (py_upper rt name))"
    unfolding u by (metis sublist_appendI append_Nil2)
  with x have "\<not> sublist ?X (butlast (m @ ?X))"
    using sublist_order.order_trans by blast
  with X have 2: "py_replace ?X [] (m @ ?X) = m"
    by (rule py_replace_only_at_end)
  show "slide_label rt name = m"
    by (simp only: slide_label_def 1 2)
  have "suffix ?X (m @ ?X)"
    by (simp add: suffix_def)
  then show "label_spec rt name = m"
    by (simp add: label_spec_def u remove_prefix_def remove_suffix_def)
qed

lemma example_is_slide_file_12: "is_slide_file (ascii ''ppt/slides/slide12.xml'')"
  by (simp add: is_slide_file_def suffix_to_prefix ascii_def)

lemma example_upper_12:
  "py_upper example_runtime (ascii ''ppt/slides/slide12.xml'') = ascii ''PPT/SLIDES/SLIDE12.XML''"
  by (simp add: py_upper_def upper_char_def ascii_def)

lemma example_no_second_prefix_12:
  "\<not> sublist (ascii ''PPT/SLIDES/'') (tl (ascii ''PPT/SLIDES/SLIDE12.XML''))"
  by (simp add: ascii_def sublist_Cons_right)

lemma example_no_inner_suffix_12:
  "\<not> sublist (ascii ''.XML'') (butlast (ascii ''PPT/SLIDES/SLIDE12.XML''))"
  by (simp add: ascii_def sublist_Cons_right)

lemma example_label_spec_12:
  "label_spec example_runtime (ascii ''ppt/slides/slide12.xml'') = ascii ''SLIDE12''"
  by (simp add: label_spec_def example_upper_12 remove_prefix_def remove_suffix_def)
     (simp add: ascii_def suffix_to_prefix)

text \<open>
  Claim C7, as the code has it. The code removes every occurrence of \<^verbatim>\<open>PPT/SLIDES/\<close> and
  then every occurrence of \<^verbatim>\<open>.XML\<close> from the upper-cased name. For an entry that passes
  the filter and whose upper-cased name holds \<^verbatim>\<open>PPT/SLIDES/\<close> at its start only and
  \<^verbatim>\<open>.XML\<close> at its end only, this is the upper-cased name without that prefix and that
  suffix, and the heading is \<^verbatim>\<open>--- <LABEL> ---\<close>.
\<close>

theorem heading_label_is_stripped_upper_name:
  assumes "is_slide_file name"
      and "\<not> sublist (ascii ''PPT/SLIDES/'') (tl (py_upper rt name))"
      and "\<not> sublist (ascii ''.XML'') (butlast (py_upper rt name))"
  shows "slide_label rt name = label_spec rt name
         \<and> py_upper rt name = ascii ''PPT/SLIDES/'' @ label_spec rt name @ ascii ''.XML''
         \<and> heading rt name = ascii ''--- '' @ label_spec rt name @ ascii '' ---''"
proof -
  obtain m where u: "py_upper rt name = ascii ''PPT/SLIDES/'' @ m @ ascii ''.XML''"
    using slide_file_upper_shape [OF assms(1)] by blast
  note l = label_of_shape [OF u assms(2,3)]
  show ?thesis
    by (simp only: heading_def l u)
qed

theorem heading_label_witness:
  "is_slide_file (ascii ''ppt/slides/slide12.xml'')
   \<and> slide_label example_runtime (ascii ''ppt/slides/slide12.xml'') = ascii ''SLIDE12''
   \<and> heading example_runtime (ascii ''ppt/slides/slide12.xml'') = ascii ''--- SLIDE12 ---''"
proof -
  have "\<not> sublist (ascii ''PPT/SLIDES/'')
            (tl (py_upper example_runtime (ascii ''ppt/slides/slide12.xml'')))"
    by (simp only: example_upper_12 example_no_second_prefix_12 not_False_eq_True)
  moreover have "\<not> sublist (ascii ''.XML'')
            (butlast (py_upper example_runtime (ascii ''ppt/slides/slide12.xml'')))"
    by (simp only: example_upper_12 example_no_inner_suffix_12 not_False_eq_True)
  ultimately have
    "slide_label example_runtime (ascii ''ppt/slides/slide12.xml'')
       = label_spec example_runtime (ascii ''ppt/slides/slide12.xml'')
     \<and> heading example_runtime (ascii ''ppt/slides/slide12.xml'')
       = ascii ''--- '' @ label_spec example_runtime (ascii ''ppt/slides/slide12.xml'') @ ascii '' ---''"
    using heading_label_is_stripped_upper_name [OF example_is_slide_file_12] by blast
  then have "slide_label example_runtime (ascii ''ppt/slides/slide12.xml'') = ascii ''SLIDE12''"
    and "heading example_runtime (ascii ''ppt/slides/slide12.xml'')
           = ascii ''--- '' @ ascii ''SLIDE12'' @ ascii '' ---''"
    by (simp_all only: example_label_spec_12)
  moreover have "ascii ''--- '' @ ascii ''SLIDE12'' @ ascii '' ---'' = ascii ''--- SLIDE12 ---''"
    by (simp add: ascii_def)
  ultimately show ?thesis
    using example_is_slide_file_12 by simp
qed

text \<open>
  The claim as the specification words it, for every entry that passes the filter,
  fails: the name \<^verbatim>\<open>ppt/slides/slide1.xml.xml\<close> passes the filter, its upper-cased name
  without prefix and suffix is \<^verbatim>\<open>SLIDE1.XML\<close>, and the label the code prints is
  \<^verbatim>\<open>SLIDE1\<close>.
\<close>

theorem heading_label_counterexample:
  "is_slide_file (ascii ''ppt/slides/slide1.xml.xml'')
   \<and> label_spec example_runtime (ascii ''ppt/slides/slide1.xml.xml'') = ascii ''SLIDE1.XML''
   \<and> slide_label example_runtime (ascii ''ppt/slides/slide1.xml.xml'') = ascii ''SLIDE1''
   \<and> slide_label example_runtime (ascii ''ppt/slides/slide1.xml.xml'')
       \<noteq> label_spec example_runtime (ascii ''ppt/slides/slide1.xml.xml'')"
proof -
  have 1: "is_slide_file (ascii ''ppt/slides/slide1.xml.xml'')"
    by (simp add: is_slide_file_def suffix_to_prefix ascii_def)
  have u: "py_upper example_runtime (ascii ''ppt/slides/slide1.xml.xml'')
            = ascii ''PPT/SLIDES/SLIDE1.XML.XML''"
    by (simp add: py_upper_def upper_char_def ascii_def)
  have 2: "label_spec example_runtime (ascii ''ppt/slides/slide1.xml.xml'') = ascii ''SLIDE1.XML''"
    by (simp add: label_spec_def u remove_prefix_def remove_suffix_def)
       (simp add: ascii_def suffix_to_prefix)
  have 3: "slide_label example_runtime (ascii ''ppt/slides/slide1.xml.xml'') = ascii ''SLIDE1''"
    by (simp add: slide_label_def u) (simp add: ascii_def)
  have "ascii ''SLIDE1'' \<noteq> ascii ''SLIDE1.XML''"
    by (simp add: ascii_def)
  with 1 2 3 show ?thesis by simp
qed

section \<open>The fragments of a slide\<close>

lemma length_open_tag: "length (ascii ''<a:t>'') = 5"
  by (simp add: ascii_def)

lemma length_close_tag: "length (ascii ''</a:t>'') = 6"
  by (simp add: ascii_def)

lemma close_tag_split: "ascii ''</a:t>'' = ascii ''</a:t'' @ [62]"
  by (simp add: ascii_def)

lemma open_tag_Cons: "ascii ''<a:t>'' = 60 # ascii ''a:t>''"
  by (simp add: ascii_def)

lemma close_tag_Cons: "ascii ''</a:t>'' = 60 # ascii ''/a:t>''"
  by (simp add: ascii_def)

lemma plain_fragment_Cons:
  assumes "plain_fragment (c # f)"
  shows "c \<noteq> 10" and "plain_fragment f"
    and "\<not> prefix (ascii ''</a:t>'') (c # f @ ascii ''</a:t>'' @ rest)"
proof -
  show "c \<noteq> 10" and "plain_fragment f"
    using assms by (auto simp: plain_fragment_def sublist_Cons_right)
  show "\<not> prefix (ascii ''</a:t>'') (c # f @ ascii ''</a:t>'' @ rest)"
  proof
    assume "prefix (ascii ''</a:t>'') (c # f @ ascii ''</a:t>'' @ rest)"
    then have "prefix (ascii ''</a:t>'') (((c # f) @ ascii ''</a:t'') @ 62 # rest)"
      by (simp add: close_tag_split)
    moreover have "length (ascii ''</a:t>'') \<le> length ((c # f) @ ascii ''</a:t'')"
      by (simp add: ascii_def)
    ultimately have "prefix (ascii ''</a:t>'') ((c # f) @ ascii ''</a:t'')"
      by (rule prefix_of_longer_part)
    then have "sublist (ascii ''</a:t>'') ((c # f) @ ascii ''</a:t'')"
      by (rule prefix_imp_sublist)
    with assms show False
      by (simp add: plain_fragment_def)
  qed
qed

lemma lazy_group_plain:
  "plain_fragment f \<Longrightarrow> lazy_group (f @ ascii ''</a:t>'' @ rest) = Some f"
proof (induction f)
  case Nil
  have "prefix (ascii ''</a:t>'') (60 # ascii ''/a:t>'' @ rest)"
    by (simp add: close_tag_Cons)
  then have "lazy_group (60 # ascii ''/a:t>'' @ rest) = Some []"
    by simp
  then show ?case
    by (simp add: close_tag_Cons)
next
  case (Cons c f)
  note h = plain_fragment_Cons [OF Cons.prems]
  have "lazy_group (c # f @ ascii ''</a:t>'' @ rest) = Some (c # f)"
    using h(1) h(3) [of rest] Cons.IH [OF h(2)] by simp
  then show ?case by simp
qed

lemma lazy_group_Some:
  "lazy_group s = Some g \<Longrightarrow> 10 \<notin> set g \<and> prefix (g @ ascii ''</a:t>'') s"
proof (induction s arbitrary: g)
  case Nil
  then show ?case by simp
next
  case (Cons c s)
  show ?case
  proof (cases "prefix (ascii ''</a:t>'') (c # s)")
    case True
    with Cons.prems show ?thesis by simp
  next
    case False
    with Cons.prems obtain g' where g': "c \<noteq> 10" "lazy_group s = Some g'" "g = c # g'"
      by (auto split: if_splits)
    from Cons.IH [OF g'(2)] g'(1,3) show ?thesis by simp
  qed
qed

lemma findall_no_open_tag:
  "no_open_tag s \<Longrightarrow> re_findall_text s = []"
proof (induction s)
  case Nil
  then show ?case by simp
next
  case (Cons c s)
  have "\<not> prefix (ascii ''<a:t>'') (c # s)"
    using Cons.prems prefix_imp_sublist by (auto simp: no_open_tag_def)
  moreover have "no_open_tag s"
    using Cons.prems by (simp add: no_open_tag_def sublist_Cons_right)
  ultimately show ?case
    using Cons.IH by simp
qed

lemma findall_at_open_tag:
  assumes "lazy_group t = Some g"
  shows "re_findall_text (ascii ''<a:t>'' @ t)
           = g # re_findall_text (drop (length g + 6) t)"
proof -
  have p: "prefix (ascii ''<a:t>'') (60 # ascii ''a:t>'' @ t)"
    by (simp add: open_tag_Cons)
  have d: "drop 5 (60 # ascii ''a:t>'' @ t) = t"
    by (simp add: ascii_def)
  have "re_findall_text (60 # ascii ''a:t>'' @ t)
          = g # re_findall_text (drop (5 + length g + 6) (60 # ascii ''a:t>'' @ t))"
    by (simp only: re_findall_text.simps p d assms if_True option.case)
  moreover have "drop (5 + length g + 6) (ascii ''<a:t>'' @ t) = drop (length g + 6) t"
    by (simp add: length_open_tag add.commute)
  ultimately show ?thesis
    by (simp add: open_tag_Cons)
qed

lemma open_tag_not_behind_gap:
  assumes "no_open_tag (c # g)"
  shows "\<not> prefix (ascii ''<a:t>'') (c # g @ ascii ''<a:t>'' @ rest)"
proof
  let ?l = "(c # g) @ ascii ''<a:t>'' @ rest"
  assume "prefix (ascii ''<a:t>'') (c # g @ ascii ''<a:t>'' @ rest)"
  then have p: "prefix (ascii ''<a:t>'') ?l" by simp
  have np: "\<not> prefix (ascii ''<a:t>'') (c # g)"
    using assms prefix_imp_sublist by (auto simp: no_open_tag_def)
  have short: "length (c # g) < 5"
  proof (rule ccontr)
    assume "\<not> length (c # g) < 5"
    then have "length (ascii ''<a:t>'') \<le> length (c # g)"
      by (simp add: length_open_tag)
    with p have "prefix (ascii ''<a:t>'') (c # g)"
      by (rule prefix_of_longer_part)
    with np show False ..
  qed
  from p obtain zs where zs: "?l = ascii ''<a:t>'' @ zs"
    by (auto simp: prefix_def)
  have "?l ! length (c # g) = 60"
    by (simp only: nth_append_length_plus [of "c # g" _ 0, simplified] open_tag_Cons)
       (simp add: nth_append)
  moreover have "?l ! length (c # g) = ascii ''<a:t>'' ! length (c # g)"
    using short by (simp only: zs) (simp add: nth_append length_open_tag)
  ultimately have "ascii ''<a:t>'' ! length (c # g) = 60"
    by simp
  moreover have "length g = 0 \<or> length g = 1 \<or> length g = 2 \<or> length g = 3"
  proof -
    have "length g < 4" using short by simp
    then show ?thesis by arith
  qed
  ultimately show False
    by (auto simp: ascii_def)
qed

lemma findall_text_run:
  assumes "plain_fragment f"
  shows "no_open_tag gap \<Longrightarrow>
         re_findall_text (gap @ ascii ''<a:t>'' @ f @ ascii ''</a:t>'' @ rest)
           = f # re_findall_text rest"
proof (induction gap)
  case Nil
  have "lazy_group (f @ ascii ''</a:t>'' @ rest) = Some f"
    using assms by (rule lazy_group_plain)
  from findall_at_open_tag [OF this] show ?case
    by (simp add: length_close_tag)
next
  case (Cons c gap)
  have "\<not> prefix (ascii ''<a:t>'') (c # gap @ ascii ''<a:t>'' @ f @ ascii ''</a:t>'' @ rest)"
    using Cons.prems by (rule open_tag_not_behind_gap)
  moreover have "no_open_tag gap"
    using Cons.prems by (simp add: no_open_tag_def sublist_Cons_right)
  ultimately show ?case
    using Cons.IH by simp
qed


lemma py_join_hello:
  "py_join (ascii '' '') [ascii ''Hello'', [], ascii ''World''] = ascii ''Hello  World''"
  by (simp add: ascii_def)




















section \<open>Opening tags with attributes\<close>

lemma findall_fragment_between_tags:
  "f \<in> set (re_findall_text s) \<Longrightarrow>
   10 \<notin> set f \<and> (\<exists>u v. s = u @ ascii ''<a:t>'' @ f @ ascii ''</a:t>'' @ v)"
proof (induction s rule: re_findall_text.induct)
  case 1
  then show ?case by simp
next
  case (2 c cs)
  let ?s = "c # cs"
  show ?case
  proof (cases "prefix (ascii ''<a:t>'') ?s")
    case False
    with "2.prems" have "f \<in> set (re_findall_text cs)" by simp
    with "2.IH" False obtain u v
      where "10 \<notin> set f" "cs = u @ ascii ''<a:t>'' @ f @ ascii ''</a:t>'' @ v"
      by blast
    then have "10 \<notin> set f \<and> ?s = (c # u) @ ascii ''<a:t>'' @ f @ ascii ''</a:t>'' @ v"
      by simp
    then show ?thesis by blast
  next
    case True
    then have s: "?s = ascii ''<a:t>'' @ drop 5 ?s"
      by (metis append_eq_conv_conj length_open_tag prefix_def)
    show ?thesis
    proof (cases "lazy_group (drop 5 ?s)")
      case None
      with True "2.prems" have "f \<in> set (re_findall_text cs)" by simp
      with "2.IH" True None obtain u v
        where "10 \<notin> set f" "cs = u @ ascii ''<a:t>'' @ f @ ascii ''</a:t>'' @ v"
        by blast
      then have "10 \<notin> set f \<and> ?s = (c # u) @ ascii ''<a:t>'' @ f @ ascii ''</a:t>'' @ v"
        by simp
      then show ?thesis by blast
    next
      case (Some g)
      from lazy_group_Some [OF Some] obtain w
        where g: "10 \<notin> set g" "drop 5 ?s = (g @ ascii ''</a:t>'') @ w"
        by (auto simp: prefix_def)
      from True Some "2.prems"
      have "f = g \<or> f \<in> set (re_findall_text (drop (5 + length g + 6) ?s))"
        by simp
      then show ?thesis
      proof
        assume "f = g"
        with g s have "10 \<notin> set f \<and> ?s = [] @ ascii ''<a:t>'' @ f @ ascii ''</a:t>'' @ w"
          by simp
        then show ?thesis by blast
      next
        assume "f \<in> set (re_findall_text (drop (5 + length g + 6) ?s))"
        with "2.IH" True Some obtain u v where uv: "10 \<notin> set f"
          "drop (5 + length g + 6) ?s = u @ ascii ''<a:t>'' @ f @ ascii ''</a:t>'' @ v"
          by blast
        have "?s = take (5 + length g + 6) ?s @ drop (5 + length g + 6) ?s"
          by simp
        then have "?s = (take (5 + length g + 6) ?s @ u)
                          @ ascii ''<a:t>'' @ f @ ascii ''</a:t>'' @ v"
          by (simp only: uv(2) append_assoc)
        with uv(1) show ?thesis by blast
      qed
    qed
  qed
qed

lemma attributed_run_no_open_tag: "no_open_tag attributed_run"
  by (simp add: no_open_tag_def attributed_run_def ascii_def sublist_Cons_right)

lemma example_read_attributed:
  "zip_read example_runtime deck_attributed (ascii ''ppt/slides/slide1.xml'')
     = Inr (bytes_of ''<a:t xml:space='' @ 0x22 # bytes_of ''preserve'' @ 0x22 # bytes_of ''>text</a:t>'')"
  by (simp add: zip_read_def deck_attributed_def ascii_def)

lemma example_decode_attributed:
  "utf8_decode (bytes_of ''<a:t xml:space='' @ 0x22 # bytes_of ''preserve'' @ 0x22 # bytes_of ''>text</a:t>'')
     = Some attributed_run"
  by (simp add: bytes_of_def attributed_run_def ascii_def)

lemma example_findall_ok:
  "re_findall_text (ascii ''<p><a:t>ok</a:t></p>'') = [ascii ''ok'']"
  by (simp add: ascii_def)

text \<open>
  Claim C9. The pattern matches the literal opening tag \<^verbatim>\<open><a:t>\<close> only: every fragment
  found stands in the content between a literal \<^verbatim>\<open><a:t>\<close> and a \<^verbatim>\<open></a:t>\<close> and holds no
  newline. No match begins at an opening tag that carries an attribute: content without
  a literal \<^verbatim>\<open><a:t>\<close>, such as \<^verbatim>\<open><a:t xml:space="preserve">text</a:t>\<close>, has no fragment,
  and the content line of such a slide is empty; markup without a literal \<^verbatim>\<open><a:t>\<close> in
  front of a text run adds nothing to the fragments either.
\<close>

theorem only_literal_open_tag_matches:
  "(\<forall>f \<in> set (re_findall_text s).
      10 \<notin> set f \<and> (\<exists>u v. s = u @ ascii ''<a:t>'' @ f @ ascii ''</a:t>'' @ v))
   \<and> (no_open_tag s \<longrightarrow> re_findall_text s = [])
   \<and> (zip_read rt a slide_file = Inr bs \<and> utf8_decode bs = Some s \<and> no_open_tag s
        \<longrightarrow> slide_text rt a slide_file = Inr [])
   \<and> (no_open_tag gap \<and> plain_fragment g
        \<longrightarrow> re_findall_text (gap @ ascii ''<a:t>'' @ g @ ascii ''</a:t>'' @ rest)
            = g # re_findall_text rest)
   \<and> no_open_tag attributed_run"
proof (intro conjI ballI impI)
  fix f assume "f \<in> set (re_findall_text s)"
  then show "10 \<notin> set f" and "\<exists>u v. s = u @ ascii ''<a:t>'' @ f @ ascii ''</a:t>'' @ v"
    using findall_fragment_between_tags by blast+
next
  assume "no_open_tag s"
  then show "re_findall_text s = []" by (rule findall_no_open_tag)
next
  assume "zip_read rt a slide_file = Inr bs \<and> utf8_decode bs = Some s \<and> no_open_tag s"
  then show "slide_text rt a slide_file = Inr []"
    by (simp add: slide_text_def findall_no_open_tag)
next
  assume "no_open_tag gap \<and> plain_fragment g"
  then show "re_findall_text (gap @ ascii ''<a:t>'' @ g @ ascii ''</a:t>'' @ rest)
            = g # re_findall_text rest"
    by (simp add: findall_text_run)
next
  show "no_open_tag attributed_run" by (rule attributed_run_no_open_tag)
qed

theorem only_literal_open_tag_witness:
  "re_findall_text attributed_run = []
   \<and> slide_text example_runtime deck_attributed (ascii ''ppt/slides/slide1.xml'') = Inr []
   \<and> re_findall_text (attributed_run @ ascii ''<a:t>'' @ ascii ''ok'' @ ascii ''</a:t>'' @ [])
       = [ascii ''ok'']
   \<and> (\<exists>u v. ascii ''<p><a:t>ok</a:t></p>''
               = u @ ascii ''<a:t>'' @ ascii ''ok'' @ ascii ''</a:t>'' @ v)"
proof (intro conjI)
  note t = only_literal_open_tag_matches
    [where s = attributed_run and rt = example_runtime and a = deck_attributed
       and slide_file = "ascii ''ppt/slides/slide1.xml''"
       and bs = "bytes_of ''<a:t xml:space='' @ 0x22 # bytes_of ''preserve'' @ 0x22 # bytes_of ''>text</a:t>''"
       and gap = attributed_run and g = "ascii ''ok''" and rest = "[]"]
  from t attributed_run_no_open_tag show "re_findall_text attributed_run = []"
    by blast
  from t attributed_run_no_open_tag example_read_attributed example_decode_attributed
  show "slide_text example_runtime deck_attributed (ascii ''ppt/slides/slide1.xml'') = Inr []"
    by blast
  have "plain_fragment (ascii ''ok'')"
    by (simp add: plain_fragment_def ascii_def sublist_Cons_right)
  with t attributed_run_no_open_tag
  have "re_findall_text (attributed_run @ ascii ''<a:t>'' @ ascii ''ok'' @ ascii ''</a:t>'' @ [])
       = ascii ''ok'' # re_findall_text []"
    by blast
  then show "re_findall_text (attributed_run @ ascii ''<a:t>'' @ ascii ''ok'' @ ascii ''</a:t>'' @ [])
       = [ascii ''ok'']"
    by (simp only: re_findall_text.simps)
  have "ascii ''ok'' \<in> set (re_findall_text (ascii ''<p><a:t>ok</a:t></p>''))"
    by (simp only: example_findall_ok list.set insertI1)
  with only_literal_open_tag_matches [where s = "ascii ''<p><a:t>ok</a:t></p>''"]
  show "\<exists>u v. ascii ''<p><a:t>ok</a:t></p>''
               = u @ ascii ''<a:t>'' @ ascii ''ok'' @ ascii ''</a:t>'' @ v"
    by blast
qed

section \<open>The order of the slides\<close>

lemma sort_keys_Inr:
  "sort_keys rt fs = Inr ks \<Longrightarrow> map (slide_number rt) fs = map Inr ks"
proof (induction fs arbitrary: ks)
  case Nil
  then show ?case by simp
next
  case (Cons f fs)
  then show ?case
    by (auto split: sum.splits)
qed

lemma sort_keys_projr:
  "sort_keys rt fs = Inr ks \<Longrightarrow> ks = map (projr \<circ> slide_number rt) fs"
proof -
  assume "sort_keys rt fs = Inr ks"
  then have "map (slide_number rt) fs = map Inr ks"
    by (rule sort_keys_Inr)
  then have "map projr (map (slide_number rt) fs) = map projr (map Inr ks)"
    by simp
  then show ?thesis
    by (simp add: comp_def)
qed

lemma sort_keys_of_permutation:
  assumes "sort_keys rt fs = Inr ks" and "mset fs' = mset fs"
  shows "sort_keys rt fs' = Inr (map (projr \<circ> slide_number rt) fs')"
proof -
  have "\<forall>f \<in> set fs. \<exists>k. slide_number rt f = Inr k"
    using sort_keys_Inr [OF assms(1)]
    by (metis (no_types, lifting) in_set_conv_nth length_map nth_map)
  moreover have "set fs' = set fs"
    using assms(2) by (rule mset_eq_setD)
  ultimately have "\<forall>f \<in> set fs'. \<exists>k. slide_number rt f = Inr k"
    by simp
  then show ?thesis
    by (induction fs') auto
qed

lemma sort_key_pairs_aux:
  "sort_key fst (map (\<lambda>y. (g y, y)) fs) = map (\<lambda>y. (g y, y)) (sort_key g fs)"
proof (induction fs)
  case Nil
  then show ?case by simp
next
  case (Cons f fs)
  have "insort_key fst (g f, f) (map (\<lambda>y. (g y, y)) ys)
          = map (\<lambda>y. (g y, y)) (insort_key g f ys)" for ys
    by (induction ys) simp_all
  with Cons show ?case by simp
qed

lemma sort_key_pairs:
  "map snd (sort_key fst (zip (map g fs) fs)) = sort_key g fs"
proof -
  have "zip (map g fs) fs = map (\<lambda>y. (g y, y)) fs"
    by (induction fs) simp_all
  then show ?thesis
    by (simp add: sort_key_pairs_aux comp_def)
qed

lemma sort_slides_sort_key:
  assumes "sort_keys rt fs = Inr ks"
  shows "sort_slides rt fs = Inr (sort_key (projr \<circ> slide_number rt) fs)"
  using assms sort_keys_projr [OF assms]
  by (simp add: sort_slides_def sort_key_pairs)

lemma slide_files_permutation:
  "mset a' = mset a \<Longrightarrow> mset (slide_files a') = mset (slide_files a)"
proof -
  assume "mset a' = mset a"
  then have "mset (map fst a') = mset (map fst a)"
    by (metis mset_map)
  then show ?thesis
    by (simp add: slide_files_def namelist_def)
qed

lemma unique_slide_entry:
  assumes "distinct (filter P (map fst a))" and "P f"
      and "(f, r) \<in> set a" and "(f, r') \<in> set a"
  shows "r = r'"
  using assms(1,3,4)
proof (induction a)
  case Nil
  then show ?case by simp
next
  case (Cons p a)
  obtain g s where p: "p = (g, s)" by (cases p)
  have d: "distinct (filter P (map fst a))"
    using Cons.prems(1) by (simp split: if_splits)
  show ?case
  proof (cases "g = f")
    case True
    have "f \<notin> set (filter P (map fst a))"
      using Cons.prems(1) assms(2) p True by simp
    then have "f \<notin> fst ` set a"
      using assms(2) by simp
    then have nf: "(f, x) \<notin> set a" for x
      by (metis fst_conv image_eqI)
    have "r = s"
      using Cons.prems(2) nf [of r] p by simp
    moreover have "r' = s"
      using Cons.prems(3) nf [of r'] p by simp
    ultimately show ?thesis by simp
  next
    case False
    have "(f, r) \<in> set a"
      using Cons.prems(2) False p by simp
    moreover have "(f, r') \<in> set a"
      using Cons.prems(3) False p by simp
    ultimately show ?thesis
      using Cons.IH d by blast
  qed
qed

lemma map_of_unique:
  assumes "(f, r) \<in> set a" and "\<And>r'. (f, r') \<in> set a \<Longrightarrow> r' = r"
  shows "map_of a f = Some r"
proof -
  from assms(1) obtain r' where "map_of a f = Some r'"
    by (meson weak_map_of_SomeI)
  moreover from this have "(f, r') \<in> set a"
    by (rule map_of_SomeD)
  ultimately show ?thesis
    using assms(2) by simp
qed

lemma zip_read_permutation:
  assumes "distinct (slide_files a)" and "f \<in> set (slide_files a)" and "mset a' = mset a"
  shows "zip_read rt a' f = zip_read rt a f"
proof -
  have P: "is_slide_file f" and "f \<in> fst ` set a"
    using assms(2) by (auto simp: slide_files_def namelist_def)
  then obtain r where r: "(f, r) \<in> set a"
    by auto
  have d: "distinct (filter is_slide_file (map fst a))"
    using assms(1) by (simp add: slide_files_def namelist_def)
  have u: "r' = r" if "(f, r') \<in> set a" for r'
    using unique_slide_entry [OF d P that r] .
  have s: "set a' = set a"
    using assms(3) by (rule mset_eq_setD)
  have "map_of (rev a) f = Some r"
  proof (rule map_of_unique)
    show "(f, r) \<in> set (rev a)"
      using r by simp
    show "r' = r" if "(f, r') \<in> set (rev a)" for r'
      using that u [of r'] by simp
  qed
  moreover have "map_of (rev a') f = Some r"
  proof (rule map_of_unique)
    show "(f, r) \<in> set (rev a')"
      using r s by simp
    show "r' = r" if "(f, r') \<in> set (rev a')" for r'
      using that u [of r'] s by simp
  qed
  ultimately show ?thesis
    by (simp add: zip_read_def)
qed

lemma print_slides_cong:
  "\<forall>f \<in> set ss. zip_read rt a' f = zip_read rt a f \<Longrightarrow>
   print_slides rt a' ss = print_slides rt a ss"
  by (induction ss) (simp_all add: slide_iteration_def slide_text_def)

lemma print_slides_shape:
  "\<exists>n \<le> length ss.
     fst (print_slides rt a ss) = concat (map (fst \<circ> slide_iteration rt a) (take n ss))
     \<and> ((\<forall>f \<in> set ss. \<exists>l. slide_text rt a f = Inr l)
          \<longrightarrow> n = length ss \<and> snd (print_slides rt a ss) = None)"
proof (induction ss)
  case Nil
  then show ?case by simp
next
  case (Cons f ss)
  show ?case
  proof (cases "slide_text rt a f")
    case (Inl e)
    then have "print_slides rt a (f # ss) = ([heading rt f], Some e)"
      and "slide_iteration rt a f = ([heading rt f], Some e)"
      by (simp_all add: slide_iteration_raises)
    then have "Suc 0 \<le> length (f # ss)
      \<and> fst (print_slides rt a (f # ss))
           = concat (map (fst \<circ> slide_iteration rt a) (take (Suc 0) (f # ss)))
      \<and> ((\<forall>g \<in> set (f # ss). \<exists>l. slide_text rt a g = Inr l)
           \<longrightarrow> Suc 0 = length (f # ss) \<and> snd (print_slides rt a (f # ss)) = None)"
      using Inl by simp
    then show ?thesis by blast
  next
    case (Inr l)
    then have it: "slide_iteration rt a f = ([heading rt f, l, []], None)"
      by (rule slide_iteration_ok)
    from Cons.IH obtain n where n: "n \<le> length ss"
      "fst (print_slides rt a ss) = concat (map (fst \<circ> slide_iteration rt a) (take n ss))"
      "(\<forall>g \<in> set ss. \<exists>l. slide_text rt a g = Inr l)
          \<longrightarrow> n = length ss \<and> snd (print_slides rt a ss) = None"
      by blast
    have "Suc n \<le> length (f # ss)
      \<and> fst (print_slides rt a (f # ss))
           = concat (map (fst \<circ> slide_iteration rt a) (take (Suc n) (f # ss)))
      \<and> ((\<forall>g \<in> set (f # ss). \<exists>l. slide_text rt a g = Inr l)
           \<longrightarrow> Suc n = length (f # ss) \<and> snd (print_slides rt a (f # ss)) = None)"
      using n it by (simp add: case_prod_unfold)
    then show ?thesis by blast
  qed
qed

lemma sort_key_strictly_sorted:
  assumes "distinct (map g fs)"
  shows "sorted_wrt (<) (map g (sort_key g fs))"
proof -
  have "mset (map g (sort_key g fs)) = mset (map g fs)"
    by simp
  then have "distinct (map g (sort_key g fs))"
    using assms by (metis mset_eq_imp_distinct_iff)
  moreover have "sorted (map g (sort_key g fs))"
    by (rule sorted_sort_key)
  ultimately show ?thesis
    by (simp add: strict_sorted_iff)
qed

lemma sort_key_of_permutation:
  assumes "distinct (map g fs)" and "mset fs' = mset fs"
  shows "sort_key g fs' = sort_key g fs"
proof (rule sort_key_inj_key_eq)
  show "mset fs' = mset (sort_key g fs)"
    using assms(2) by simp
  have "inj_on g (set fs)"
    using assms(1) by (simp add: distinct_map)
  moreover have "set fs' = set fs"
    using assms(2) by (rule mset_eq_setD)
  ultimately show "inj_on g (set fs')"
    by simp
  show "sorted (map g (sort_key g fs))"
    by (rule sorted_sort_key)
qed

lemma extract_of_print_slides:
  assumes "zip_open rt path = Inr a" and "sort_slides rt (slide_files a) = Inr ss"
  shows "extract_text_from_pptx rt path =
           fst (print_slides rt a ss)
           @ (case snd (print_slides rt a ss) of None \<Rightarrow> [] | Some e \<Rightarrow> [error_line e])"
  using assms
  by (simp add: extract_text_from_pptx_def try_body_opened case_prod_unfold split: option.splits)

lemma example_sort_keys_deck:
  "sort_keys example_runtime (slide_files deck) = Inr [10, 1, 2]"
  by (simp add: slide_files_def namelist_def deck_def is_slide_file_def
      suffix_to_prefix example_key_simps)

lemma example_open_reordered:
  "zip_open example_runtime (ascii ''reordered.pptx'') = Inr deck_reordered"
  by (simp add: example_runtime_def example_files_def ascii_def)

lemma example_reordered_permutation: "mset deck_reordered = mset deck"
  by (simp add: deck_def deck_reordered_def add_mset_commute)

lemma example_sort_deck:
  "sort_slides example_runtime (slide_files deck)
     = Inr [ascii ''ppt/slides/slide1.xml'', ascii ''ppt/slides/slide2.xml'',
            ascii ''ppt/slides/slide10.xml'']"
  by (simp add: sort_slides_def slide_files_def namelist_def deck_def is_slide_file_def
      suffix_to_prefix example_key_simps)

lemma example_text_deck_1:
  "slide_text example_runtime deck (ascii ''ppt/slides/slide1.xml'') = Inr (ascii ''A'')"
  by (simp add: slide_text_def zip_read_def deck_def ascii_def bytes_of_def)

lemma example_text_deck_2:
  "slide_text example_runtime deck (ascii ''ppt/slides/slide2.xml'') = Inr (ascii ''B'')"
  by (simp add: slide_text_def zip_read_def deck_def ascii_def bytes_of_def)

lemma example_text_deck_10:
  "slide_text example_runtime deck (ascii ''ppt/slides/slide10.xml'') = Inr (ascii ''C'')"
  by (simp add: slide_text_def zip_read_def deck_def ascii_def bytes_of_def)

lemma example_heading_10:
  "heading example_runtime (ascii ''ppt/slides/slide10.xml'') = ascii ''--- SLIDE10 ---''"
  by (simp add: example_label_simps)

lemma example_print_deck:
  "print_slides example_runtime deck
     [ascii ''ppt/slides/slide1.xml'', ascii ''ppt/slides/slide2.xml'',
      ascii ''ppt/slides/slide10.xml'']
   = ([ascii ''--- SLIDE1 ---'', ascii ''A'', [],
       ascii ''--- SLIDE2 ---'', ascii ''B'', [],
       ascii ''--- SLIDE10 ---'', ascii ''C'', []], None)"
  by (simp only: print_slides.simps
      slide_iteration_ok [OF example_text_deck_1] slide_iteration_ok [OF example_text_deck_2]
      slide_iteration_ok [OF example_text_deck_10]
      example_heading_1 example_heading_2 example_heading_10
      prod.case option.case append.simps)

lemma example_output_deck:
  "extract_text_from_pptx example_runtime (ascii ''deck.pptx'')
     = [ascii ''--- SLIDE1 ---'', ascii ''A'', [],
        ascii ''--- SLIDE2 ---'', ascii ''B'', [],
        ascii ''--- SLIDE10 ---'', ascii ''C'', []]"
  by (simp only: extract_of_print_slides [OF example_open_deck example_sort_deck]
      example_print_deck fst_conv snd_conv option.case append_Nil2)

lemma decimal_string_digits:
  "c \<in> set (decimal_string n) \<Longrightarrow> 48 \<le> c \<and> c \<le> 57"
proof (induction n rule: decimal_string.induct)
  case (1 n)
  show ?case
  proof (cases "n < 10")
    case True
    with "1.prems" show ?thesis
      by (simp add: decimal_string.simps [of n])
  next
    case False
    with "1.prems" have "c \<in> set (decimal_string (n div 10)) \<or> c = 48 + n mod 10"
      by (auto simp: decimal_string.simps [of n])
    then show ?thesis
    proof
      assume "c \<in> set (decimal_string (n div 10))"
      with "1.IH" False show ?thesis by simp
    next
      assume "c = 48 + n mod 10"
      moreover have "n mod 10 < 10" by simp
      ultimately show ?thesis by linarith
    qed
  qed
qed

lemma decimal_string_not_Nil: "decimal_string n \<noteq> []"
  by (simp add: decimal_string.simps [of n])

lemma is_decimal_ascii_digit: "48 \<le> c \<Longrightarrow> c \<le> 57 \<Longrightarrow> is_decimal rt c"
  by (simp add: is_decimal_def decimal_value_def)

lemma digits_value_append:
  "digits_value rt n (xs @ ys) =
     (case digits_value rt n xs of None \<Rightarrow> None | Some v \<Rightarrow> digits_value rt v ys)"
  by (induction xs arbitrary: n) (simp_all split: option.splits)

lemma digits_value_decimal_string:
  "digits_value rt 0 (decimal_string n) = Some n"
proof (induction n rule: decimal_string.induct)
  case (1 n)
  show ?case
  proof (cases "n < 10")
    case True
    then show ?thesis
      by (simp add: decimal_string.simps [of n] decimal_value_def)
  next
    case False
    have "n mod 10 < 10" by simp
    then have "decimal_value rt (48 + n mod 10) = Some (n mod 10)"
      by (simp add: decimal_value_def)
    with "1.IH" False show ?thesis
      by (simp add: decimal_string.simps [of n] digits_value_append)
  qed
qed

lemma digits_value_leading_zeros:
  "digits_value rt 0 (replicate k 48 @ ds) = digits_value rt 0 ds"
  by (induction k) (simp_all add: decimal_value_def)

lemma py_int_decimal_string:
  assumes "int_max_str_digits rt = 0 \<or> k + length (decimal_string n) \<le> int_max_str_digits rt"
  shows "py_int rt (replicate k 48 @ decimal_string n) = Some n"
  using assms
  by (auto simp: py_int_def decimal_string_not_Nil digits_value_leading_zeros
      digits_value_decimal_string)

lemma re_search_slide_after_prefix:
  assumes "ds \<noteq> []" and "\<forall>c \<in> set ds. is_decimal rt c"
      and "rest = [] \<or> \<not> is_decimal rt (hd rest)"
  shows "re_search_slide rt (ascii ''ppt/slides/slide'' @ ds @ rest) = Some ds"
proof -
  have "takeWhile (is_decimal rt) rest = []"
    using assms(3) by (cases rest) auto
  with assms(2) have tw: "takeWhile (is_decimal rt) (ds @ rest) = ds"
    by (simp add: takeWhile_append2)
  have nd: "\<not> is_decimal rt 115"
    by (simp add: is_decimal_def decimal_value_def)
  show ?thesis
    using assms(1) by (simp add: ascii_def tw nd)
qed

lemma slide_number_after_prefix:
  assumes "rest = [] \<or> \<not> is_decimal rt (hd rest)"
      and "int_max_str_digits rt = 0 \<or> k + length (decimal_string n) \<le> int_max_str_digits rt"
  shows "slide_number rt (ascii ''ppt/slides/slide'' @ replicate k 48 @ decimal_string n @ rest)
           = Inr n"
proof -
  let ?ds = "replicate k 48 @ decimal_string n"
  have "?ds \<noteq> []"
    by (simp add: decimal_string_not_Nil)
  moreover have "\<forall>c \<in> set ?ds. is_decimal rt c"
    using decimal_string_digits [of _ n] by (auto intro: is_decimal_ascii_digit)
  ultimately have "re_search_slide rt (ascii ''ppt/slides/slide'' @ ?ds @ rest) = Some ?ds"
    using assms(1) by (rule re_search_slide_after_prefix)
  then show ?thesis
    using py_int_decimal_string [OF assms(2)] by (simp add: slide_number_def)
qed

lemma slide_number_slide_name:
  "slide_number rt (slide_name n) = Inr k \<Longrightarrow> k = n"
proof -
  assume a: "slide_number rt (slide_name n) = Inr k"
  have "\<not> is_decimal rt (hd (ascii ''.xml''))"
    by (simp add: ascii_def is_decimal_def decimal_value_def)
  then have "re_search_slide rt (ascii ''ppt/slides/slide'' @ decimal_string n @ ascii ''.xml'')
      = Some (decimal_string n)"
    using decimal_string_digits [of _ n]
    by (intro re_search_slide_after_prefix) (auto intro: is_decimal_ascii_digit simp: decimal_string_not_Nil)
  with a have "py_int rt (decimal_string n) = Some k"
    by (simp add: slide_number_def slide_name_def split: option.splits)
  then have "digits_value rt 0 (decimal_string n) = Some k"
    by (simp add: py_int_def split: if_splits)
  then show "k = n"
    by (simp add: digits_value_decimal_string)
qed

lemma is_slide_file_slide_name: "is_slide_file (slide_name n)"
  by (simp add: is_slide_file_def slide_name_def suffix_def)

lemma sort_key_slide_names:
  assumes "mset fs = mset (map slide_name ms)"
      and "\<forall>f \<in> set fs. \<exists>k. slide_number rt f = Inr k"
      and "distinct (map (projr \<circ> slide_number rt) fs)"
  shows "sort_key (projr \<circ> slide_number rt) fs = map slide_name (sort ms)"
proof (rule sort_key_inj_key_eq)
  let ?g = "projr \<circ> slide_number rt"
  show "mset fs = mset (map slide_name (sort ms))"
    using assms(1) by simp
  show "inj_on ?g (set fs)"
    using assms(3) by (simp add: distinct_map)
  have "set fs = slide_name ` set ms"
    using assms(1) by (metis mset_eq_setD set_map)
  then have g: "projr (slide_number rt (slide_name m)) = m" if "m \<in> set ms" for m
  proof -
    from that \<open>set fs = slide_name ` set ms\<close> assms(2)
    obtain k where k: "slide_number rt (slide_name m) = Inr k"
      by blast
    then have "k = m" by (rule slide_number_slide_name)
    with k show ?thesis by simp
  qed
  have "map (\<lambda>m. ?g (slide_name m)) (sort ms) = sort ms"
    by (rule map_idI) (simp add: g)
  then have "map ?g (map slide_name (sort ms)) = sort ms"
    by (simp add: comp_def)
  then show "sorted (map ?g (map slide_name (sort ms)))"
    by simp
qed

lemma sort_keys_all_Inr:
  assumes "sort_keys rt fs = Inr ks"
  shows "\<forall>f \<in> set fs. \<exists>k. slide_number rt f = Inr k"
  using sort_keys_Inr [OF assms]
  by (metis (no_types, lifting) in_set_conv_nth length_map nth_map)

lemma example_slide_files_deck: "mset (slide_files deck) = mset (map slide_name [10, 1, 2])"
  by (simp add: slide_files_def namelist_def deck_def is_slide_file_def suffix_to_prefix
      slide_name_def decimal_string.simps ascii_def)

lemma example_decimal_string_10: "decimal_string 10 = ascii ''10''"
  by (simp add: decimal_string.simps ascii_def)

text \<open>
  Claim C1. The sort key of a name is the number written in it: for a name that goes on
  behind \<^verbatim>\<open>ppt/slides/slide\<close> with the decimal digits of \<open>n\<close> (leading zeros allowed) and
  then with something that is no digit, the key is \<open>n\<close>. When every entry that passes the
  filter has a number and the numbers are distinct, the loop runs over the slides in
  strictly ascending order of their numbers; slides named \<^verbatim>\<open>ppt/slides/slide<n>.xml\<close> are
  processed in the order of the sorted numbers \<open>n\<close> (\<open>slide2\<close> before \<open>slide10\<close>). The
  output is made of the blocks of the first \<open>n\<close> slides of that order (all of them,
  followed by nothing, when every slide can be read and decoded; otherwise the last block
  is the heading of the failing slide and one \<^verbatim>\<open>Error:\<close> line follows). An archive with
  the same entries in any other order of enumeration gives the same output.
\<close>

theorem slides_printed_in_ascending_order:
  assumes "zip_open rt path = Inr a"
      and "sort_keys rt (slide_files a) = Inr ks" and "distinct ks"
      and "zip_open rt path' = Inr a'" and "mset a' = mset a"
  shows "(\<forall>n k rest.
            (rest = [] \<or> \<not> is_decimal rt (hd rest))
            \<and> (int_max_str_digits rt = 0
                 \<or> k + length (decimal_string n) \<le> int_max_str_digits rt)
            \<longrightarrow> slide_number rt
                  (ascii ''ppt/slides/slide'' @ replicate k 48 @ decimal_string n @ rest)
                = Inr n)
       \<and> (\<exists>ss ns n tail.
           mset ss = mset (slide_files a)
         \<and> map (slide_number rt) ss = map Inr ns \<and> sorted_wrt (<) ns
         \<and> (\<forall>ms. mset (slide_files a) = mset (map slide_name ms)
                \<longrightarrow> ss = map slide_name (sort ms))
         \<and> n \<le> length ss \<and> length tail \<le> 1
         \<and> extract_text_from_pptx rt path
             = concat (map (fst \<circ> slide_iteration rt a) (take n ss)) @ tail
         \<and> ((\<forall>f \<in> set ss. \<exists>l. slide_text rt a f = Inr l) \<longrightarrow> n = length ss \<and> tail = [])
         \<and> extract_text_from_pptx rt path' = extract_text_from_pptx rt path)"
proof (rule conjI)
  show "\<forall>n k rest.
            (rest = [] \<or> \<not> is_decimal rt (hd rest))
            \<and> (int_max_str_digits rt = 0
                 \<or> k + length (decimal_string n) \<le> int_max_str_digits rt)
            \<longrightarrow> slide_number rt
                  (ascii ''ppt/slides/slide'' @ replicate k 48 @ decimal_string n @ rest)
                = Inr n"
    by (intro allI impI slide_number_after_prefix) simp_all
next
  let ?g = "projr \<circ> slide_number rt"
  let ?fs = "slide_files a" and ?fs' = "slide_files a'"
  let ?ss = "sort_key ?g ?fs"
  have ks: "ks = map ?g ?fs"
    using assms(2) by (rule sort_keys_projr)
  with assms(3) have dg: "distinct (map ?g ?fs)"
    by simp
  then have dfs: "distinct ?fs"
    by (simp add: distinct_map)
  have sorted: "sort_slides rt ?fs = Inr ?ss"
    using assms(2) by (rule sort_slides_sort_key)
  have mss: "mset ?ss = mset ?fs"
    by simp
  have perm: "mset ?fs' = mset ?fs"
    using assms(5) by (rule slide_files_permutation)
  have "sort_keys rt ?fs' = Inr (map ?g ?fs')"
    using assms(2) perm by (rule sort_keys_of_permutation)
  then have "sort_slides rt ?fs' = Inr (sort_key ?g ?fs')"
    by (rule sort_slides_sort_key)
  also have "sort_key ?g ?fs' = ?ss"
    using dg perm by (rule sort_key_of_permutation)
  finally have sorted': "sort_slides rt ?fs' = Inr ?ss" .
  have "\<forall>f \<in> set ?ss. zip_read rt a' f = zip_read rt a f"
  proof
    fix f assume "f \<in> set ?ss"
    then have "f \<in> set ?fs" by simp
    then show "zip_read rt a' f = zip_read rt a f"
      by (rule zip_read_permutation [OF dfs _ assms(5)])
  qed
  then have same: "print_slides rt a' ?ss = print_slides rt a ?ss"
    by (rule print_slides_cong)
  let ?tail = "case snd (print_slides rt a ?ss) of None \<Rightarrow> [] | Some e \<Rightarrow> [error_line e]"
  have out: "extract_text_from_pptx rt path = fst (print_slides rt a ?ss) @ ?tail"
    using assms(1) sorted by (rule extract_of_print_slides)
  have "extract_text_from_pptx rt path' = fst (print_slides rt a' ?ss)
          @ (case snd (print_slides rt a' ?ss) of None \<Rightarrow> [] | Some e \<Rightarrow> [error_line e])"
    using assms(4) sorted' by (rule extract_of_print_slides)
  then have "extract_text_from_pptx rt path' = fst (print_slides rt a ?ss) @ ?tail"
    by (simp only: same)
  then have eq: "extract_text_from_pptx rt path' = extract_text_from_pptx rt path"
    by (simp only: out)
  have "sort_keys rt ?ss = Inr (map ?g ?ss)"
    using assms(2) mss by (rule sort_keys_of_permutation)
  then have nums: "map (slide_number rt) ?ss = map Inr (map ?g ?ss)"
    by (rule sort_keys_Inr)
  have asc: "sorted_wrt (<) (map ?g ?ss)"
    using dg by (rule sort_key_strictly_sorted)
  have len: "length ?tail \<le> 1"
    by (cases "snd (print_slides rt a ?ss)") simp_all
  from print_slides_shape [of ?ss rt a] obtain n where n: "n \<le> length ?ss"
    "fst (print_slides rt a ?ss) = concat (map (fst \<circ> slide_iteration rt a) (take n ?ss))"
    "(\<forall>f \<in> set ?ss. \<exists>l. slide_text rt a f = Inr l)
       \<longrightarrow> n = length ?ss \<and> snd (print_slides rt a ?ss) = None"
    by blast
  have all: "(\<forall>f \<in> set ?ss. \<exists>l. slide_text rt a f = Inr l)
       \<longrightarrow> n = length ?ss \<and> ?tail = []"
  proof
    assume "\<forall>f \<in> set ?ss. \<exists>l. slide_text rt a f = Inr l"
    with n(3) have "n = length ?ss" and "snd (print_slides rt a ?ss) = None"
      by blast+
    then show "n = length ?ss \<and> ?tail = []"
      by simp
  qed
  have full: "extract_text_from_pptx rt path
          = concat (map (fst \<circ> slide_iteration rt a) (take n ?ss)) @ ?tail"
    by (simp only: out n(2))
  have names: "\<forall>ms. mset ?fs = mset (map slide_name ms) \<longrightarrow> ?ss = map slide_name (sort ms)"
  proof (intro allI impI)
    fix ms assume "mset ?fs = mset (map slide_name ms)"
    then show "?ss = map slide_name (sort ms)"
      using sort_keys_all_Inr [OF assms(2)] dg by (rule sort_key_slide_names)
  qed
  show "\<exists>ss ns n tail.
           mset ss = mset (slide_files a)
         \<and> map (slide_number rt) ss = map Inr ns \<and> sorted_wrt (<) ns
         \<and> (\<forall>ms. mset (slide_files a) = mset (map slide_name ms)
                \<longrightarrow> ss = map slide_name (sort ms))
         \<and> n \<le> length ss \<and> length tail \<le> 1
         \<and> extract_text_from_pptx rt path
             = concat (map (fst \<circ> slide_iteration rt a) (take n ss)) @ tail
         \<and> ((\<forall>f \<in> set ss. \<exists>l. slide_text rt a f = Inr l) \<longrightarrow> n = length ss \<and> tail = [])
         \<and> extract_text_from_pptx rt path' = extract_text_from_pptx rt path"
  proof (intro exI conjI)
    show "mset ?ss = mset ?fs" by (rule mss)
    show "map (slide_number rt) ?ss = map Inr (map ?g ?ss)" by (rule nums)
    show "sorted_wrt (<) (map ?g ?ss)" by (rule asc)
    show "\<forall>ms. mset ?fs = mset (map slide_name ms) \<longrightarrow> ?ss = map slide_name (sort ms)"
      by (rule names)
    show "n \<le> length ?ss" by (rule n(1))
    show "length ?tail \<le> 1" by (rule len)
    show "extract_text_from_pptx rt path
          = concat (map (fst \<circ> slide_iteration rt a) (take n ?ss)) @ ?tail"
      by (rule full)
    show "(\<forall>f \<in> set ?ss. \<exists>l. slide_text rt a f = Inr l)
       \<longrightarrow> n = length ?ss \<and> ?tail = []"
      by (rule all)
    show "extract_text_from_pptx rt path' = extract_text_from_pptx rt path" by (rule eq)
  qed
qed

theorem slides_in_ascending_order_witness:
  "sort_keys example_runtime (slide_files deck) = Inr [10, 1, 2]
   \<and> mset deck_reordered = mset deck
   \<and> slide_number example_runtime (ascii ''ppt/slides/slide10.xml'') = Inr 10
   \<and> sort_slides example_runtime (slide_files deck)
       = Inr (map slide_name [1, 2, 10])
   \<and> extract_text_from_pptx example_runtime (ascii ''reordered.pptx'')
       = [ascii ''--- SLIDE1 ---'', ascii ''A'', [],
          ascii ''--- SLIDE2 ---'', ascii ''B'', [],
          ascii ''--- SLIDE10 ---'', ascii ''C'', []]"
proof -
  have "distinct [10, 1, 2::nat]"
    by simp
  note t = slides_printed_in_ascending_order
    [OF example_open_deck example_sort_keys_deck this example_open_reordered
        example_reordered_permutation]
  have "\<not> is_decimal example_runtime (hd (ascii ''.xml''))"
    by (simp add: ascii_def is_decimal_def decimal_value_def)
  moreover have "0 + length (decimal_string 10) \<le> int_max_str_digits example_runtime"
    by (simp add: example_decimal_string_10 ascii_def example_runtime_def)
  ultimately have "slide_number example_runtime
      (ascii ''ppt/slides/slide'' @ replicate 0 48 @ decimal_string 10 @ ascii ''.xml'') = Inr 10"
    using t [THEN conjunct1] by blast
  then have pin: "slide_number example_runtime (ascii ''ppt/slides/slide10.xml'') = Inr 10"
    by (simp add: example_decimal_string_10 ascii_def)
  from t [THEN conjunct2] obtain ss where
    ss: "\<forall>ms. mset (slide_files deck) = mset (map slide_name ms) \<longrightarrow> ss = map slide_name (sort ms)"
      "mset ss = mset (slide_files deck)"
    and eq: "extract_text_from_pptx example_runtime (ascii ''reordered.pptx'')
          = extract_text_from_pptx example_runtime (ascii ''deck.pptx'')"
    by blast
  from ss(1) example_slide_files_deck have "ss = map slide_name (sort [10, 1, 2])"
    by blast
  then have "ss = map slide_name [1, 2, 10]"
    by simp
  moreover have "sort_slides example_runtime (slide_files deck) = Inr (map slide_name [1, 2, 10])"
    by (simp only: example_sort_deck)
       (simp add: slide_name_def decimal_string.simps ascii_def)
  ultimately show ?thesis
    using example_sort_keys_deck example_reordered_permutation pin eq
    by (simp only: example_output_deck simp_thms)
qed

end
